theory Spec2Isabelle
  imports Main
begin

section \<open>Python strings, slices and exceptions\<close>

text \<open>
  A Python \<open>str\<close> is modelled as a \<open>string\<close>: one list element per code unit that
  \<open>len\<close> counts. The functions below only ever compare characters with ASCII
  characters (the newline, \<open><\<close>, \<open>>\<close>, \<open>/\<close> and the letters of \<open>script\<close>).
\<close>

text \<open>\<open>s.split("\n")\<close> with a one-character separator: always at least one piece.\<close>

fun split_on :: "char \<Rightarrow> string \<Rightarrow> string list" where
  "split_on sep [] = [[]]"
| "split_on sep (c # cs) =
     (if c = sep then [] # split_on sep cs
      else (case split_on sep cs of
              [] \<Rightarrow> [[c]]
            | l # ls \<Rightarrow> (c # l) # ls))"

definition newline :: char where
  "newline = CHR 0x0A"

text \<open>\<open>xs[:n]\<close> for a Python int \<open>n\<close>: a negative stop counts from the end, and a
  stop out of range is clipped; the slice never raises.\<close>

definition slice_to :: "'a list \<Rightarrow> int \<Rightarrow> 'a list" where
  "slice_to xs n = (if n < 0 then take (length xs - nat (- n)) xs else take (nat n) xs)"

text \<open>\<open>s.endswith(suf)\<close>.\<close>

definition endswith :: "string \<Rightarrow> string \<Rightarrow> bool" where
  "endswith s suf = (length suf \<le> length s \<and> drop (length s - length suf) s = suf)"

text \<open>\<open>s.startswith(l)\<close> and \<open>s.find(pat)\<close> (the offset of the first occurrence of \<open>pat\<close>
  in \<open>s\<close>, if there is one). The code does not call them; the properties below use them to
  say where a tag stands in a text.\<close>

definition starts_with :: "string \<Rightarrow> string \<Rightarrow> bool" where
  "starts_with s l = (take (length l) s = l)"

fun str_find :: "string \<Rightarrow> string \<Rightarrow> nat option" where
  "str_find [] pat = (if pat = [] then Some 0 else None)"
| "str_find (c # cs) pat =
     (if starts_with (c # cs) pat then Some 0 else map_option Suc (str_find cs pat))"

text \<open>
  An instance of Python's \<open>Exception\<close>, with its message. A call that can raise returns
  \<open>exception + 'a\<close>: \<open>Inl e\<close> when it raises \<open>e\<close>, \<open>Inr v\<close> when it returns \<open>v\<close>.
  What derives from \<open>BaseException\<close> only (\<open>KeyboardInterrupt\<close>, \<open>SystemExit\<close>) stops
  the process and is no result of a call here.
\<close>

datatype exception = Exception string

section \<open>completions.py\<close>

text \<open>The LSP \<open>Position\<close>: \<open>line\<close> and \<open>character\<close> are Python ints.\<close>

record Position =
  line :: int
  character :: int

text \<open>
  \<^verbatim>\<open>lines = source.split("\n")
offset = sum(len(line) + 1 for line in lines[: position.line])
offset += position.character
return offset\<close>
\<close>

definition position_to_offset :: "string \<Rightarrow> Position \<Rightarrow> int" where
  "position_to_offset source position =
     (let lines = split_on newline source;
          offset = int (sum_list (map (\<lambda>l. length l + 1) (slice_to lines (line position))))
      in offset + character position)"

subsection \<open>The pattern of \<open>is_in_script_region\<close>\<close>

text \<open>
  \<^verbatim>\<open>script_pattern = r"<script[^>]*>(.*?)</script>"
matches = re.finditer(script_pattern, source, re.DOTALL)\<close>

  The pattern is a sequence of five pieces: the literal \<open><script\<close>, the greedy star
  \<open>[^>]*\<close>, the literal \<open>>\<close>, the lazy star \<open>.*?\<close> (group 1; with \<open>re.DOTALL\<close> the dot
  matches every character, the newline included) and the literal \<open></script>\<close>. No flag
  makes the match case-insensitive. The matcher below is the backtracking matcher of
  \<open>re\<close> restricted to these pieces: every piece takes the offset reached and the text
  still to be read, and a star takes the rest of the pattern as a continuation, tries
  its alternatives in the order of preference and falls back to the next one when the
  continuation fails.
\<close>

record Match =
  start0 :: nat  \<comment> \<open>\<open>match.start()\<close>\<close>
  end0 :: nat  \<comment> \<open>\<open>match.end()\<close>\<close>
  start1 :: nat  \<comment> \<open>\<open>match.start(1)\<close>\<close>
  end1 :: nat  \<comment> \<open>\<open>match.end(1)\<close>\<close>

text \<open>A literal: the text must start with it.\<close>

fun lit :: "string \<Rightarrow> nat \<Rightarrow> string \<Rightarrow> (nat \<times> string) option" where
  "lit [] p s = Some (p, s)"
| "lit (c # cs) p [] = None"
| "lit (c # cs) p (d # ds) = (if c = d then lit cs (Suc p) ds else None)"

text \<open>\<open>[^>]*\<close>, greedy: take one more character that is not \<open>>\<close> first, stop here
  only if that fails.\<close>

fun star_not_gt :: "(nat \<Rightarrow> string \<Rightarrow> 'r option) \<Rightarrow> nat \<Rightarrow> string \<Rightarrow> 'r option" where
  "star_not_gt k p [] = k p []"
| "star_not_gt k p (c # cs) =
     (if c \<noteq> CHR ''>'' then
        (case star_not_gt k (Suc p) cs of
           Some r \<Rightarrow> Some r
         | None \<Rightarrow> k p (c # cs))
      else k p (c # cs))"

text \<open>\<open>.*?\<close> under \<open>re.DOTALL\<close>, lazy: stop here first, take one more character
  (any character) only if that fails.\<close>

fun star_any_lazy :: "(nat \<Rightarrow> string \<Rightarrow> 'r option) \<Rightarrow> nat \<Rightarrow> string \<Rightarrow> 'r option" where
  "star_any_lazy k p [] = k p []"
| "star_any_lazy k p (c # cs) =
     (case k p (c # cs) of
        Some r \<Rightarrow> Some r
      | None \<Rightarrow> star_any_lazy k (Suc p) cs)"

text \<open>One attempt of the whole pattern at offset \<open>p\<close>, where \<open>s\<close> is \<open>source[p:]\<close>.
  The result is the match and the text after it.\<close>

definition match_here :: "nat \<Rightarrow> string \<Rightarrow> (Match \<times> string) option" where
  "match_here p s =
     (case lit ''<script'' p s of
        None \<Rightarrow> None
      | Some (p1, s1) \<Rightarrow>
          star_not_gt
            (\<lambda>p2 s2.
               case lit ''>'' p2 s2 of
                 None \<Rightarrow> None
               | Some (p3, s3) \<Rightarrow>
                   star_any_lazy
                     (\<lambda>p4 s4.
                        case lit ''</script>'' p4 s4 of
                          None \<Rightarrow> None
                        | Some (p5, s5) \<Rightarrow>
                            Some (\<lparr>start0 = p, end0 = p5, start1 = p3, end1 = p4\<rparr>, s5))
                     p3 s3)
            p1 s1)"

text \<open>The scan for the next match: the leftmost offset at which an attempt succeeds.\<close>

fun search :: "nat \<Rightarrow> string \<Rightarrow> (Match \<times> string) option" where
  "search p [] = match_here p []"
| "search p (c # cs) =
     (case match_here p (c # cs) of
        Some r \<Rightarrow> Some r
      | None \<Rightarrow> search (Suc p) cs)"

subsection \<open>What one attempt of the pattern matches\<close>

lemma lit_Some_iff: "lit l p s = Some (q, r) \<longleftrightarrow> s = l @ r \<and> q = p + length l"
proof (induction l p s rule: lit.induct)
  case (1 p s)
  then show ?case by auto
next
  case (2 c cs p)
  then show ?case by simp
next
  case (3 c cs p d ds)
  then show ?case by auto
qed

lemma lit_None_iff: "lit l p s = None \<longleftrightarrow> take (length l) s \<noteq> l"
proof (induction l p s rule: lit.induct)
  case (1 p s)
  then show ?case by simp
next
  case (2 c cs p)
  then show ?case by simp
next
  case (3 c cs p d ds)
  then show ?case by simp
qed

lemma star_not_gt_first:
  assumes k: "\<And>q c cs. c \<noteq> CHR ''>'' \<Longrightarrow> k q (c # cs) = None"
  shows "star_not_gt k p s =
           k (p + length (takeWhile (\<lambda>c. c \<noteq> CHR ''>'') s)) (dropWhile (\<lambda>c. c \<noteq> CHR ''>'') s)"
proof (induction s arbitrary: p)
  case Nil
  then show ?case by simp
next
  case (Cons c cs)
  show ?case
  proof (cases "c = CHR ''>''")
    case True
    then show ?thesis by simp
  next
    case False
    then show ?thesis using Cons [of "Suc p"] k [of c p cs]
      by (simp split: option.splits)
  qed
qed

lemma star_any_lazy_Some:
  "star_any_lazy k p s = Some r \<longleftrightarrow>
     (\<exists>i\<le>length s. k (p + i) (drop i s) = Some r \<and> (\<forall>j<i. k (p + j) (drop j s) = None))"
proof (induction s arbitrary: p)
  case Nil
  then show ?case by simp
next
  case (Cons c cs)
  show ?case
  proof (cases "k p (c # cs)")
    case (Some r')
    have "(\<exists>i\<le>length (c # cs). k (p + i) (drop i (c # cs)) = Some r \<and>
            (\<forall>j<i. k (p + j) (drop j (c # cs)) = None)) \<longleftrightarrow> r' = r"
    proof
      assume "\<exists>i\<le>length (c # cs). k (p + i) (drop i (c # cs)) = Some r \<and>
            (\<forall>j<i. k (p + j) (drop j (c # cs)) = None)"
      then obtain i where i: "k (p + i) (drop i (c # cs)) = Some r"
        "\<forall>j<i. k (p + j) (drop j (c # cs)) = None" by blast
      have "i = 0"
      proof (rule ccontr)
        assume "i \<noteq> 0"
        then have "k (p + 0) (drop 0 (c # cs)) = None" using i(2) by blast
        then show False using Some by simp
      qed
      then show "r' = r" using i(1) Some by simp
    next
      assume "r' = r"
      then have "k (p + 0) (drop 0 (c # cs)) = Some r \<and> (\<forall>j<0. k (p + j) (drop j (c # cs)) = None)"
        using Some by simp
      then show "\<exists>i\<le>length (c # cs). k (p + i) (drop i (c # cs)) = Some r \<and>
            (\<forall>j<i. k (p + j) (drop j (c # cs)) = None)" by blast
    qed
    then show ?thesis using Some by simp
  next
    case None
    have "(\<exists>i\<le>length (c # cs). k (p + i) (drop i (c # cs)) = Some r \<and>
            (\<forall>j<i. k (p + j) (drop j (c # cs)) = None)) \<longleftrightarrow>
          (\<exists>i\<le>length cs. k (Suc p + i) (drop i cs) = Some r \<and>
            (\<forall>j<i. k (Suc p + j) (drop j cs) = None))" (is "?L \<longleftrightarrow> ?R")
    proof
      assume ?L
      then obtain i where i: "i \<le> length (c # cs)" "k (p + i) (drop i (c # cs)) = Some r"
        "\<forall>j<i. k (p + j) (drop j (c # cs)) = None" by blast
      have "i \<noteq> 0" using i(2) None by (cases i) auto
      then obtain i' where i': "i = Suc i'" by (cases i) auto
      have "\<forall>j<i'. k (Suc p + j) (drop j cs) = None"
      proof (intro allI impI)
        fix j assume "j < i'"
        then have "Suc j < i" using i' by simp
        then have "k (p + Suc j) (drop (Suc j) (c # cs)) = None" using i(3) by blast
        then show "k (Suc p + j) (drop j cs) = None" by simp
      qed
      then show ?R using i(1,2) i' by auto
    next
      assume ?R
      then obtain i where i: "i \<le> length cs" "k (Suc p + i) (drop i cs) = Some r"
        "\<forall>j<i. k (Suc p + j) (drop j cs) = None" by blast
      have "\<forall>j<Suc i. k (p + j) (drop j (c # cs)) = None"
      proof (intro allI impI)
        fix j assume j: "j < Suc i"
        show "k (p + j) (drop j (c # cs)) = None"
        proof (cases j)
          case 0
          then show ?thesis using None by simp
        next
          case (Suc j')
          then show ?thesis using i(3) j by auto
        qed
      qed
      moreover have "Suc i \<le> length (c # cs)" using i(1) by simp
      moreover have "k (p + Suc i) (drop (Suc i) (c # cs)) = Some r" using i(2) by simp
      ultimately show ?L by blast
    qed
    then show ?thesis using None Cons [of "Suc p"] by simp
  qed
qed

text \<open>The two continuations of \<open>match_here\<close>, named: what follows \<open>.*?\<close>, and what
  follows \<open>[^>]*\<close>.\<close>

definition close_k :: "nat \<Rightarrow> nat \<Rightarrow> nat \<Rightarrow> string \<Rightarrow> (Match \<times> string) option" where
  "close_k p p3 = (\<lambda>p4 s4.
                        case lit ''</script>'' p4 s4 of
                          None \<Rightarrow> None
                        | Some (p5, s5) \<Rightarrow>
                            Some (\<lparr>start0 = p, end0 = p5, start1 = p3, end1 = p4\<rparr>, s5))"

definition gt_k :: "nat \<Rightarrow> nat \<Rightarrow> string \<Rightarrow> (Match \<times> string) option" where
  "gt_k p = (\<lambda>p2 s2.
               case lit ''>'' p2 s2 of
                 None \<Rightarrow> None
               | Some (p3, s3) \<Rightarrow> star_any_lazy (close_k p p3) p3 s3)"

lemma match_here_alt:
  "match_here p s =
     (case lit ''<script'' p s of
        None \<Rightarrow> None
      | Some (p1, s1) \<Rightarrow> star_not_gt (gt_k p) p1 s1)"
  unfolding match_here_def gt_k_def close_k_def by (rule refl)

lemma gt_k_None: "c \<noteq> CHR ''>'' \<Longrightarrow> gt_k p q (c # cs) = None"
  by (simp add: gt_k_def)

lemma close_k_Some:
  "close_k p p3 p4 s4 = Some (m, rest) \<longleftrightarrow>
     s4 = ''</script>'' @ rest \<and> m = \<lparr>start0 = p, end0 = p4 + 9, start1 = p3, end1 = p4\<rparr>"
proof (cases "lit ''</script>'' p4 s4")
  case None
  then have "take (length ''</script>'') s4 \<noteq> ''</script>''"
    using lit_None_iff [of "''</script>''" p4 s4] by blast
  then have "s4 \<noteq> ''</script>'' @ rest" by auto
  then show ?thesis using None by (simp add: close_k_def)
next
  case (Some a)
  obtain p5 s5 where a: "a = (p5, s5)" by (cases a)
  then have "s4 = ''</script>'' @ s5 \<and> p5 = p4 + length ''</script>''"
    using Some lit_Some_iff [of "''</script>''" p4 s4 p5 s5] by blast
  then show ?thesis using Some a by (auto simp add: close_k_def)
qed

lemma close_k_None:
  "close_k p p3 p4 s4 = None \<longleftrightarrow> \<not> starts_with s4 ''</script>''"
proof (cases "lit ''</script>'' p4 s4")
  case None
  then have "take (length ''</script>'') s4 \<noteq> ''</script>''"
    using lit_None_iff [of "''</script>''" p4 s4] by blast
  then show ?thesis using None by (simp add: close_k_def starts_with_def)
next
  case (Some a)
  obtain p5 s5 where a: "a = (p5, s5)" by (cases a)
  then have "s4 = ''</script>'' @ s5 \<and> p5 = p4 + length ''</script>''"
    using Some lit_Some_iff [of "''</script>''" p4 s4 p5 s5] by blast
  then show ?thesis using Some a by (auto simp add: close_k_def starts_with_def)
qed

lemma gt_k_Some:
  "gt_k p p2 s2 = Some (m, rest) \<longleftrightarrow>
     (\<exists>content. s2 = ''>'' @ content @ ''</script>'' @ rest \<and>
        (\<forall>j<length content. \<not> starts_with (drop j (content @ ''</script>'' @ rest)) ''</script>'') \<and>
        m = \<lparr>start0 = p, end0 = p2 + 1 + length content + 9, start1 = p2 + 1,
              end1 = p2 + 1 + length content\<rparr>)"
  (is "?L \<longleftrightarrow> ?R")
proof
  assume L: ?L
  then obtain a where a: "lit ''>'' p2 s2 = Some a" by (auto simp add: gt_k_def split: option.splits)
  obtain p3 s3 where a3: "a = (p3, s3)" by (cases a)
  have s2: "s2 = ''>'' @ s3" and p3: "p3 = p2 + 1"
    using a a3 lit_Some_iff [of "''>''" p2 s2 p3 s3] by simp_all
  have "star_any_lazy (close_k p p3) p3 s3 = Some (m, rest)"
    using L a a3 by (simp add: gt_k_def)
  then obtain i where i: "i \<le> length s3" "close_k p p3 (p3 + i) (drop i s3) = Some (m, rest)"
    "\<forall>j<i. close_k p p3 (p3 + j) (drop j s3) = None"
    unfolding star_any_lazy_Some by blast
  define content where "content = take i s3"
  have d: "drop i s3 = ''</script>'' @ rest"
    and m: "m = \<lparr>start0 = p, end0 = p3 + i + 9, start1 = p3, end1 = p3 + i\<rparr>"
    using i(2) unfolding close_k_Some by simp_all
  have len: "length content = i" using i(1) by (simp add: content_def)
  have s3: "s3 = content @ ''</script>'' @ rest"
    using d append_take_drop_id [of i s3] by (simp add: content_def)
  have "\<forall>j<length content. \<not> starts_with (drop j (content @ ''</script>'' @ rest)) ''</script>''"
    using i(3) len s3 unfolding close_k_None by simp
  then show ?R using s2 s3 m p3 len by auto
next
  assume ?R
  then obtain content where c: "s2 = ''>'' @ content @ ''</script>'' @ rest"
    "\<forall>j<length content. \<not> starts_with (drop j (content @ ''</script>'' @ rest)) ''</script>''"
    "m = \<lparr>start0 = p, end0 = p2 + 1 + length content + 9, start1 = p2 + 1,
              end1 = p2 + 1 + length content\<rparr>" by blast
  define s3 where "s3 = content @ ''</script>'' @ rest"
  have l: "lit ''>'' p2 s2 = Some (p2 + 1, s3)"
    using c(1) by (simp add: s3_def)
  have "close_k p (p2 + 1) (p2 + 1 + length content) (drop (length content) s3) = Some (m, rest)"
    unfolding close_k_Some using c(3) by (simp add: s3_def)
  moreover have "\<forall>j<length content. close_k p (p2 + 1) (p2 + 1 + j) (drop j s3) = None"
    unfolding close_k_None using c(2) by (simp add: s3_def)
  moreover have "length content \<le> length s3" by (simp add: s3_def)
  ultimately have "star_any_lazy (close_k p (p2 + 1)) (p2 + 1) s3 = Some (m, rest)"
    unfolding star_any_lazy_Some by blast
  then show ?L using l by (simp add: gt_k_def)
qed

lemma match_here_Some:
  "match_here p s = Some (m, rest) \<longleftrightarrow>
     (\<exists>attrs content.
        s = ''<script'' @ attrs @ ''>'' @ content @ ''</script>'' @ rest \<and>
        CHR ''>'' \<notin> set attrs \<and>
        (\<forall>j<length content. \<not> starts_with (drop j (content @ ''</script>'' @ rest)) ''</script>'') \<and>
        m = \<lparr>start0 = p, end0 = p + 8 + length attrs + length content + 9,
              start1 = p + 8 + length attrs, end1 = p + 8 + length attrs + length content\<rparr>)"
  (is "?L \<longleftrightarrow> ?R")
proof
  assume L: ?L
  then obtain a where a: "lit ''<script'' p s = Some a"
    by (auto simp add: match_here_alt split: option.splits)
  obtain p1 s1 where a1: "a = (p1, s1)" by (cases a)
  have s: "s = ''<script'' @ s1" and p1: "p1 = p + 7"
    using a a1 lit_Some_iff [of "''<script''" p s p1 s1] by simp_all
  define attrs where "attrs = takeWhile (\<lambda>c. c \<noteq> CHR ''>'') s1"
  define s2 where "s2 = dropWhile (\<lambda>c. c \<noteq> CHR ''>'') s1"
  have s1: "s1 = attrs @ s2" by (simp add: attrs_def s2_def)
  have na: "CHR ''>'' \<notin> set attrs" using set_takeWhileD [of "CHR ''>''" "\<lambda>c. c \<noteq> CHR ''>''" s1]
    by (auto simp add: attrs_def)
  have "star_not_gt (gt_k p) p1 s1 = Some (m, rest)" using L a a1 by (simp add: match_here_alt)
  then have "gt_k p (p1 + length attrs) s2 = Some (m, rest)"
    using star_not_gt_first [of "gt_k p" p1 s1] gt_k_None by (simp add: attrs_def s2_def)
  then obtain content where c: "s2 = ''>'' @ content @ ''</script>'' @ rest"
    "\<forall>j<length content. \<not> starts_with (drop j (content @ ''</script>'' @ rest)) ''</script>''"
    "m = \<lparr>start0 = p, end0 = p1 + length attrs + 1 + length content + 9, start1 = p1 + length attrs + 1,
              end1 = p1 + length attrs + 1 + length content\<rparr>"
    unfolding gt_k_Some by blast
  have "s = ''<script'' @ attrs @ ''>'' @ content @ ''</script>'' @ rest"
    using s s1 c(1) by simp
  moreover have "m = \<lparr>start0 = p, end0 = p + 8 + length attrs + length content + 9,
              start1 = p + 8 + length attrs, end1 = p + 8 + length attrs + length content\<rparr>"
    using c(3) p1 by simp
  ultimately show ?R using na c(2) by blast
next
  assume ?R
  then obtain attrs content where r:
    "s = ''<script'' @ attrs @ ''>'' @ content @ ''</script>'' @ rest"
    "CHR ''>'' \<notin> set attrs"
    "\<forall>j<length content. \<not> starts_with (drop j (content @ ''</script>'' @ rest)) ''</script>''"
    "m = \<lparr>start0 = p, end0 = p + 8 + length attrs + length content + 9,
              start1 = p + 8 + length attrs, end1 = p + 8 + length attrs + length content\<rparr>"
    by blast
  define s1 where "s1 = attrs @ ''>'' @ content @ ''</script>'' @ rest"
  have l: "lit ''<script'' p s = Some (p + 7, s1)" using r(1) by (simp add: s1_def)
  have tw: "takeWhile (\<lambda>c. c \<noteq> CHR ''>'') s1 = attrs"
    using r(2) unfolding s1_def by (induction attrs) auto
  have dw: "dropWhile (\<lambda>c. c \<noteq> CHR ''>'') s1 = ''>'' @ content @ ''</script>'' @ rest"
    using r(2) unfolding s1_def by (induction attrs) auto
  have "gt_k p (p + 7 + length attrs) (''>'' @ content @ ''</script>'' @ rest) = Some (m, rest)"
    unfolding gt_k_Some using r(3,4) by auto
  then have "star_not_gt (gt_k p) (p + 7) s1 = Some (m, rest)"
    using star_not_gt_first [of "gt_k p" "p + 7" s1] gt_k_None by (simp add: tw dw)
  then show ?L using l by (simp add: match_here_alt)
qed

subsection \<open>What the scan finds\<close>

lemma search_star: "search p s = star_any_lazy match_here p s"
  by (induction s arbitrary: p) (simp_all split: option.splits)

lemma search_Some:
  "search p s = Some r \<longleftrightarrow>
     (\<exists>i\<le>length s. match_here (p + i) (drop i s) = Some r \<and>
        (\<forall>j<i. match_here (p + j) (drop j s) = None))"
  unfolding search_star by (rule star_any_lazy_Some)

lemma search_None:
  "search p s = None \<longleftrightarrow> (\<forall>i\<le>length s. match_here (p + i) (drop i s) = None)"
proof (induction s arbitrary: p)
  case Nil
  then show ?case by simp
next
  case (Cons c cs)
  have "(\<forall>i\<le>length (c # cs). match_here (p + i) (drop i (c # cs)) = None) \<longleftrightarrow>
        match_here p (c # cs) = None \<and> (\<forall>i\<le>length cs. match_here (Suc p + i) (drop i cs) = None)"
    (is "?L \<longleftrightarrow> ?R")
  proof
    assume L: ?L
    have "match_here (p + 0) (drop 0 (c # cs)) = None" using L by blast
    moreover have "\<forall>i\<le>length cs. match_here (Suc p + i) (drop i cs) = None"
    proof (intro allI impI)
      fix i assume "i \<le> length cs"
      then have "Suc i \<le> length (c # cs)" by simp
      then have "match_here (p + Suc i) (drop (Suc i) (c # cs)) = None" using L by blast
      then show "match_here (Suc p + i) (drop i cs) = None" by simp
    qed
    ultimately show ?R by simp
  next
    assume R: ?R
    show ?L
    proof (intro allI impI)
      fix i assume i: "i \<le> length (c # cs)"
      show "match_here (p + i) (drop i (c # cs)) = None"
      proof (cases i)
        case 0
        then show ?thesis using R by simp
      next
        case (Suc i')
        then show ?thesis using R i by auto
      qed
    qed
  qed
  then show ?case using Cons [of "Suc p"] by (simp split: option.splits)
qed

lemma search_shape:
  assumes "search p s = Some (m, rest)"
  shows "\<exists>i attrs content.
           s = take i s @ ''<script'' @ attrs @ ''>'' @ content @ ''</script>'' @ rest \<and>
           i \<le> length s \<and>
           CHR ''>'' \<notin> set attrs \<and>
           m = \<lparr>start0 = p + i, end0 = p + i + 8 + length attrs + length content + 9,
                 start1 = p + i + 8 + length attrs,
                 end1 = p + i + 8 + length attrs + length content\<rparr>"
proof -
  obtain i where i: "i \<le> length s" "match_here (p + i) (drop i s) = Some (m, rest)"
    using assms unfolding search_Some by blast
  obtain attrs content where a:
    "drop i s = ''<script'' @ attrs @ ''>'' @ content @ ''</script>'' @ rest"
    "CHR ''>'' \<notin> set attrs"
    "m = \<lparr>start0 = p + i, end0 = p + i + 8 + length attrs + length content + 9,
              start1 = p + i + 8 + length attrs, end1 = p + i + 8 + length attrs + length content\<rparr>"
    using i(2) unfolding match_here_Some by blast
  have "s = take i s @ ''<script'' @ attrs @ ''>'' @ content @ ''</script>'' @ rest"
    using a(1) append_take_drop_id [of i s] by simp
  then show ?thesis using i(1) a(2,3) by blast
qed

lemma search_shorter:
  assumes "search p s = Some (m, rest)"
  shows "length rest < length s"
proof -
  obtain i attrs content where
    "s = take i s @ ''<script'' @ attrs @ ''>'' @ content @ ''</script>'' @ rest"
    using search_shape [OF assms] by blast
  then have "length s = length (take i s @ ''<script'' @ attrs @ ''>'' @ content @ ''</script>'' @ rest)"
    by simp
  then show ?thesis by simp
qed

subsection \<open>\<open>re.finditer\<close> and the region test\<close>

text \<open>
  \<open>re.finditer\<close>: the matches from left to right, each scan starting where the match
  before ended (a match of this pattern is never empty). \<open>finditer p s\<close> scans
  \<open>s = source[p:]\<close>; the iterator over a whole text is \<open>finditer 0 source\<close>.
\<close>

function finditer :: "nat \<Rightarrow> string \<Rightarrow> Match list" where
  "finditer p s =
     (case search p s of
        None \<Rightarrow> []
      | Some (m, rest) \<Rightarrow> m # finditer (end0 m) rest)"
  by pat_completeness auto
termination
proof (relation "measure (\<lambda>(p, s). length s)")
  show "wf (measure (\<lambda>(p, s). length s))" by simp
next
  fix p :: nat and s :: string and x2 :: "Match \<times> string" and m rest
  assume "search p s = Some x2" and "(m, rest) = x2"
  then have "search p s = Some (m, rest)" by simp
  then have "length rest < length s" by (rule search_shorter)
  then show "((end0 m, rest), (p, s)) \<in> measure (\<lambda>(p, s). length s)" by simp
qed

declare finditer.simps [simp del]

text \<open>
  \<^verbatim>\<open>for match in matches:
    if match.start(1) <= offset <= match.end(1):
        return True
return False\<close>
\<close>

fun any_contains :: "Match list \<Rightarrow> int \<Rightarrow> bool" where
  "any_contains [] offset = False"
| "any_contains (m # ms) offset =
     (if int (start1 m) \<le> offset \<and> offset \<le> int (end1 m) then True
      else any_contains ms offset)"

definition is_in_script_region :: "string \<Rightarrow> Position \<Rightarrow> bool" where
  "is_in_script_region source position =
     (let matches = finditer 0 source;
          offset = position_to_offset source position
      in any_contains matches offset)"

text \<open>The dataclass \<open>CompletionContext\<close>.\<close>

record CompletionContext =
  is_python_code :: bool
  full_source :: string
  original_position :: Position

definition analyze_context :: "string \<Rightarrow> Position \<Rightarrow> CompletionContext" where
  "analyze_context source position =
     (if is_in_script_region source position then
        \<lparr>is_python_code = True, full_source = source, original_position = position\<rparr>
      else
        \<lparr>is_python_code = False, full_source = source, original_position = position\<rparr>)"

datatype CompletionItemKind =
  Text | Module | Class | Function | Variable | File | Keyword | Property

text \<open>The dictionary of \<open>map_jedi_type_to_lsp\<close>, in the order of the source.\<close>

definition jedi_mapping :: "(string \<times> CompletionItemKind) list" where
  "jedi_mapping =
     [(''module'', Module),
      (''class'', Class),
      (''function'', Function),
      (''param'', Variable),
      (''path'', File),
      (''keyword'', Keyword),
      (''property'', Property),
      (''statement'', Variable)]"

text \<open>\<open>mapping.get(jedi_type, CompletionItemKind.Text)\<close>.\<close>

definition map_jedi_type_to_lsp :: "string \<Rightarrow> CompletionItemKind" where
  "map_jedi_type_to_lsp jedi_type =
     (case map_of jedi_mapping jedi_type of
        Some k \<Rightarrow> k
      | None \<Rightarrow> Text)"

subsection \<open>\<open>get_python_completions\<close>\<close>

text \<open>What \<open>jedi\<close> returns for one completion: \<open>comp.name\<close>, \<open>comp.type\<close>,
  \<open>comp.description\<close>, and the two calls \<open>comp.docstring()\<close> and
  \<open>comp.docstring(raw=True)\<close>.\<close>

record Completion =
  name :: string
  type :: string
  description :: string
  docstring :: "exception + string"
  docstring_raw :: "exception + string"

datatype InsertTextFormat = PlainText | Snippet

record CompletionItem =
  label :: string
  kind :: CompletionItemKind
  detail :: string
  documentation :: "string option"
  insert_text :: string
  insert_text_format :: InsertTextFormat
  sort_text :: string

text \<open>
  The collaborators of \<open>get_python_completions\<close>, none of them code of this
  repository: the temporary file (\<open>tempfile.NamedTemporaryFile\<close> and the write of the
  source into it, giving \<open>tmp_path\<close>; \<open>tmp_path.unlink(missing_ok=True)\<close>),
  \<open>collagraph.sfc.construct_ast\<close> (the first component of the pair it returns),
  \<open>ast.unparse\<close>, and \<open>jedi.Script(code, path).complete(line, column)\<close>.
\<close>

record 'ast Collaborators =
  make_tmp :: "string \<Rightarrow> exception + string"
  unlink :: "string \<Rightarrow> exception + unit"
  construct_ast :: "string \<Rightarrow> string \<Rightarrow> exception + 'ast"
  unparse :: "'ast \<Rightarrow> exception + string"
  jedi_complete :: "string \<Rightarrow> string \<Rightarrow> int \<Rightarrow> int \<Rightarrow> exception + Completion list"

text \<open>One \<open>CompletionItem(...)\<close> of the loop: the condition \<open>comp.docstring()\<close> is
  evaluated first, \<open>comp.docstring(raw=True)\<close> only when it is not empty.\<close>

definition to_item :: "Completion \<Rightarrow> exception + CompletionItem" where
  "to_item c =
     (case docstring c of
        Inl e \<Rightarrow> Inl e
      | Inr d \<Rightarrow>
          (if d \<noteq> [] then
             (case docstring_raw c of
                Inl e \<Rightarrow> Inl e
              | Inr raw \<Rightarrow>
                  Inr \<lparr>label = name c, kind = map_jedi_type_to_lsp (type c),
                       detail = description c, documentation = Some raw,
                       insert_text = name c, insert_text_format = PlainText,
                       sort_text = name c\<rparr>)
           else
             Inr \<lparr>label = name c, kind = map_jedi_type_to_lsp (type c),
                  detail = description c, documentation = None,
                  insert_text = name c, insert_text_format = PlainText,
                  sort_text = name c\<rparr>))"

text \<open>\<open>for comp in completions: items.append(...)\<close>, stopping at the first raise.\<close>

fun to_items :: "Completion list \<Rightarrow> exception + CompletionItem list" where
  "to_items [] = Inr []"
| "to_items (c # cs) =
     (case to_item c of
        Inl e \<Rightarrow> Inl e
      | Inr item \<Rightarrow>
          (case to_items cs of
             Inl e \<Rightarrow> Inl e
           | Inr items \<Rightarrow> Inr (item # items)))"

text \<open>The body of the \<open>try\<close> block, up to \<open>return items\<close>.\<close>

definition try_completions ::
  "'ast Collaborators \<Rightarrow> string \<Rightarrow> CompletionContext \<Rightarrow> exception + CompletionItem list" where
  "try_completions env tmp_path context =
     (case construct_ast env tmp_path (full_source context) of
        Inl e \<Rightarrow> Inl e
      | Inr component_ast \<Rightarrow>
          (case unparse env component_ast of
             Inl e \<Rightarrow> Inl e
           | Inr virtual_source \<Rightarrow>
               (case jedi_complete env virtual_source tmp_path
                       (line (original_position context) + 1)
                       (character (original_position context)) of
                  Inl e \<Rightarrow> Inl e
                | Inr completions \<Rightarrow> to_items completions)))"

text \<open>
  The whole function (the coroutine run to its end). The temporary file is made before the
  \<open>try\<close>, so a raise there leaves the function; \<open>except Exception: return []\<close> turns a
  raise of the body into the empty list; the \<open>finally\<close> clause runs last on every
  path, and a raise of \<open>unlink\<close> there replaces the value returned.
\<close>

definition get_python_completions ::
  "'ast Collaborators \<Rightarrow> string \<Rightarrow> Position \<Rightarrow> CompletionContext
     \<Rightarrow> exception + CompletionItem list" where
  "get_python_completions env source position context =
     (if \<not> is_python_code context then Inr []
      else
        (case make_tmp env (full_source context) of
           Inl e \<Rightarrow> Inl e
         | Inr tmp_path \<Rightarrow>
             (let returned =
                    (case try_completions env tmp_path context of
                       Inl e \<Rightarrow> []
                     | Inr items \<Rightarrow> items)
              in case unlink env tmp_path of
                   Inl e \<Rightarrow> Inl e
                 | Inr u \<Rightarrow> Inr returned)))"

section \<open>server.py\<close>

text \<open>
  \<open>content.splitlines(keepends=True)\<close>: a line ends after \<open>\n\<close>, \<open>\r\n\<close>, \<open>\r\<close>,
  \<open>\v\<close>, \<open>\f\<close>, \<open>\x1c\<close>, \<open>\x1d\<close>, \<open>\x1e\<close> or \<open>\x85\<close>, the separator stays in the
  line, and no empty last line is added. (Python also breaks at U+2028 and U+2029, which
  are no values of \<open>char\<close>.) The first argument is the line read so far, reversed.
\<close>

definition is_linebreak :: "char \<Rightarrow> bool" where
  "is_linebreak c =
     (c \<in> {CHR 0x0A, CHR 0x0B, CHR 0x0C, CHR 0x0D, CHR 0x1C, CHR 0x1D, CHR 0x1E, CHR 0x85})"

fun splitlines_from :: "string \<Rightarrow> string \<Rightarrow> string list" where
  "splitlines_from cur [] = (if cur = [] then [] else [rev cur])"
| "splitlines_from cur [c] = [rev (c # cur)]"
| "splitlines_from cur (c # d # ds) =
     (if c = CHR 0x0D \<and> d = CHR 0x0A then rev (d # c # cur) # splitlines_from [] ds
      else if is_linebreak c then rev (c # cur) # splitlines_from [] (d # ds)
      else splitlines_from (c # cur) (d # ds))"

definition splitlines_keepends :: "string \<Rightarrow> string list" where
  "splitlines_keepends content = splitlines_from [] content"

datatype DiagnosticSeverity = Error | Warning | Information | Hint

definition severity_mapping :: "(string \<times> DiagnosticSeverity) list" where
  "severity_mapping =
     [(''error'', Error),
      (''warning'', Warning),
      (''info'', Information),
      (''hint'', Hint)]"

text \<open>\<open>_severity_to_lsp\<close>: \<open>mapping.get(severity, DiagnosticSeverity.Warning)\<close>.\<close>

definition severity_to_lsp :: "string \<Rightarrow> DiagnosticSeverity" where
  "severity_to_lsp severity =
     (case map_of severity_mapping severity of
        Some v \<Rightarrow> v
      | None \<Rightarrow> Warning)"

text \<open>A diagnostic of the linter \<open>ruff_cgx.lint_cgx_content\<close>.\<close>

record Diag =
  d_line :: int
  d_column :: int
  d_end_line :: int
  d_end_column :: int
  d_message :: string
  d_severity :: string
  d_code :: string
  d_source :: string

record Range =
  range_start :: Position
  range_end :: Position

record LspDiagnostic =
  lsp_range :: Range
  lsp_message :: string
  lsp_severity :: DiagnosticSeverity
  lsp_code :: string
  lsp_source :: string

record PublishDiagnosticsParams =
  uri :: string
  diagnostics :: "LspDiagnostic list"

record TextEdit =
  edit_range :: Range
  new_text :: string

record SemanticTokens =
  data :: "int list"

text \<open>The records of the module's \<open>logger\<close>: the level, and the message with the values
  its f-string prints.\<close>

datatype Level = DEBUG | INFO | ERROR

datatype Message =
    Skipping_non_CGX_file string
  | Validating_document string
  | Published_diagnostics nat string
  | Error_validating_document string exception
  | Document_opened string
  | Document_changed string
  | Document_saved string
  | Document_closed string
  | Formatting_document string
  | No_formatting_changes_needed string
  | Formatted_document string
  | Error_formatting_document string exception
  | Providing_semantic_tokens string
  | Provided_semantic_tokens nat string
  | Error_providing_semantic_tokens string exception

text \<open>
  What a handler reads and changes: the workspace
  (\<open>ls.workspace.get_text_document(uri).source\<close>, which raises for a document it cannot
  read), the notifications sent by \<open>ls.text_document_publish_diagnostics\<close>, oldest
  first, and the log.
\<close>

record Server =
  documents :: "string \<Rightarrow> exception + string"
  published :: "PublishDiagnosticsParams list"
  logged :: "(Level \<times> Message) list"

definition log_to :: "Server \<Rightarrow> Level \<Rightarrow> Message \<Rightarrow> Server" where
  "log_to ls level msg = ls\<lparr>logged := logged ls @ [(level, msg)]\<rparr>"

definition text_document_publish_diagnostics ::
  "Server \<Rightarrow> PublishDiagnosticsParams \<Rightarrow> Server" where
  "text_document_publish_diagnostics ls params = ls\<lparr>published := published ls @ [params]\<rparr>"

text \<open>
  What \<open>server.py\<close> calls and this repository's files do not hold: the linter and the
  formatter of \<open>ruff_cgx\<close>, the two methods of \<open>ls.semantic_tokens_provider\<close>
  (\<open>semantic_tokens.py\<close>), and the constructor \<open>Position(line=..., character=...)\<close> of
  \<open>lsprotocol\<close>, which may refuse its arguments.
\<close>

record 'tok Services =
  lint_cgx_content :: "string \<Rightarrow> exception + Diag list"
  format_cgx_content :: "string \<Rightarrow> string \<Rightarrow> exception + string"
  get_tokens :: "string \<Rightarrow> string \<Rightarrow> exception + 'tok list"
  encode_tokens :: "'tok list \<Rightarrow> exception + int list"
  new_Position :: "int \<Rightarrow> int \<Rightarrow> exception + Position"

text \<open>One \<open>LspDiagnostic(...)\<close> of the loop of \<open>validate_document\<close>: the start position
  is built first, then the end position.\<close>

definition to_lsp_diag :: "'tok Services \<Rightarrow> Diag \<Rightarrow> exception + LspDiagnostic" where
  "to_lsp_diag sv diag =
     (case new_Position sv (d_line diag) (d_column diag) of
        Inl e \<Rightarrow> Inl e
      | Inr start \<Rightarrow>
          (case new_Position sv (d_end_line diag) (d_end_column diag) of
             Inl e \<Rightarrow> Inl e
           | Inr end_pos \<Rightarrow>
               Inr \<lparr>lsp_range = \<lparr>range_start = start, range_end = end_pos\<rparr>,
                    lsp_message = d_message diag,
                    lsp_severity = severity_to_lsp (d_severity diag),
                    lsp_code = d_code diag,
                    lsp_source = d_source diag\<rparr>))"

fun to_lsp_diags :: "'tok Services \<Rightarrow> Diag list \<Rightarrow> exception + LspDiagnostic list" where
  "to_lsp_diags sv [] = Inr []"
| "to_lsp_diags sv (diag # diags) =
     (case to_lsp_diag sv diag of
        Inl e \<Rightarrow> Inl e
      | Inr lsp_diag \<Rightarrow>
          (case to_lsp_diags sv diags of
             Inl e \<Rightarrow> Inl e
           | Inr lsp_diagnostics \<Rightarrow> Inr (lsp_diag # lsp_diagnostics)))"

text \<open>\<open>validate_document\<close>: the whole body stands in \<open>try\<close>, and
  \<open>except Exception as e\<close> logs the error and returns.\<close>

definition validate_document :: "'tok Services \<Rightarrow> Server \<Rightarrow> string \<Rightarrow> Server" where
  "validate_document sv ls u =
     (if \<not> endswith u ''.cgx'' then log_to ls DEBUG (Skipping_non_CGX_file u)
      else
        (case documents ls u of
           Inl e \<Rightarrow> log_to ls ERROR (Error_validating_document u e)
         | Inr content \<Rightarrow>
             (let ls1 = log_to ls INFO (Validating_document u)
              in case lint_cgx_content sv content of
                   Inl e \<Rightarrow> log_to ls1 ERROR (Error_validating_document u e)
                 | Inr diags \<Rightarrow>
                     (case to_lsp_diags sv diags of
                        Inl e \<Rightarrow> log_to ls1 ERROR (Error_validating_document u e)
                      | Inr lsp_diagnostics \<Rightarrow>
                          log_to
                            (text_document_publish_diagnostics ls1
                               \<lparr>uri = u, diagnostics = lsp_diagnostics\<rparr>)
                            INFO (Published_diagnostics (length lsp_diagnostics) u)))))"

definition did_open :: "'tok Services \<Rightarrow> Server \<Rightarrow> string \<Rightarrow> Server" where
  "did_open sv ls u = validate_document sv (log_to ls INFO (Document_opened u)) u"

definition did_change :: "'tok Services \<Rightarrow> Server \<Rightarrow> string \<Rightarrow> Server" where
  "did_change sv ls u = validate_document sv (log_to ls INFO (Document_changed u)) u"

definition did_save :: "'tok Services \<Rightarrow> Server \<Rightarrow> string \<Rightarrow> Server" where
  "did_save sv ls u = validate_document sv (log_to ls INFO (Document_saved u)) u"

text \<open>\<open>did_close\<close> has no test of the name: it logs, and publishes the empty list of
  diagnostics for the document.\<close>

definition did_close :: "Server \<Rightarrow> string \<Rightarrow> Server" where
  "did_close ls u =
     text_document_publish_diagnostics (log_to ls INFO (Document_closed u))
       \<lparr>uri = u, diagnostics = []\<rparr>"

text \<open>
  \<open>formatting\<close>: the state after the request and the edits returned.
  \<^verbatim>\<open>lines = content.splitlines(keepends=True)
last_line = len(lines) - 1
last_char = len(lines[-1]) if lines else 0\<close>
\<close>

definition formatting :: "'tok Services \<Rightarrow> Server \<Rightarrow> string \<Rightarrow> Server \<times> TextEdit list" where
  "formatting sv ls u =
     (let ls0 = log_to ls INFO (Formatting_document u)
      in if \<not> endswith u ''.cgx'' then (log_to ls0 DEBUG (Skipping_non_CGX_file u), [])
         else
           (case documents ls0 u of
              Inl e \<Rightarrow> (log_to ls0 ERROR (Error_formatting_document u e), [])
            | Inr content \<Rightarrow>
                (case format_cgx_content sv content u of
                   Inl e \<Rightarrow> (log_to ls0 ERROR (Error_formatting_document u e), [])
                 | Inr formatted_content \<Rightarrow>
                     (if formatted_content = content
                      then (log_to ls0 INFO (No_formatting_changes_needed u), [])
                      else
                        (let lines = splitlines_keepends content;
                             last_line = int (length lines) - 1;
                             last_char = (if lines \<noteq> [] then int (length (last lines)) else 0)
                         in case new_Position sv 0 0 of
                              Inl e \<Rightarrow> (log_to ls0 ERROR (Error_formatting_document u e), [])
                            | Inr start \<Rightarrow>
                                (case new_Position sv last_line last_char of
                                   Inl e \<Rightarrow>
                                     (log_to ls0 ERROR (Error_formatting_document u e), [])
                                 | Inr end_pos \<Rightarrow>
                                     (log_to ls0 INFO (Formatted_document u),
                                      [\<lparr>edit_range =
                                           \<lparr>range_start = start, range_end = end_pos\<rparr>,
                                         new_text = formatted_content\<rparr>])))))))"

text \<open>\<open>semantic_tokens_full\<close>: the state after the request and the tokens returned.\<close>

definition semantic_tokens_full ::
  "'tok Services \<Rightarrow> Server \<Rightarrow> string \<Rightarrow> Server \<times> SemanticTokens" where
  "semantic_tokens_full sv ls u =
     (let ls0 = log_to ls INFO (Providing_semantic_tokens u)
      in if \<not> endswith u ''.cgx''
         then (log_to ls0 DEBUG (Skipping_non_CGX_file u), \<lparr>data = []\<rparr>)
         else
           (case documents ls0 u of
              Inl e \<Rightarrow> (log_to ls0 ERROR (Error_providing_semantic_tokens u e), \<lparr>data = []\<rparr>)
            | Inr content \<Rightarrow>
                (case get_tokens sv content u of
                   Inl e \<Rightarrow>
                     (log_to ls0 ERROR (Error_providing_semantic_tokens u e), \<lparr>data = []\<rparr>)
                 | Inr tokens \<Rightarrow>
                     (case encode_tokens sv tokens of
                        Inl e \<Rightarrow>
                          (log_to ls0 ERROR (Error_providing_semantic_tokens u e),
                           \<lparr>data = []\<rparr>)
                      | Inr encoded_data \<Rightarrow>
                          (log_to ls0 INFO (Provided_semantic_tokens (length tokens) u),
                           \<lparr>data = encoded_data\<rparr>)))))"

section \<open>Properties of \<open>position_to_offset\<close>\<close>

text \<open>A position within the bounds of a text: its line is one of the text's lines, and its
  character is at most the length of that line. Both are counted from zero.\<close>

definition within_bounds :: "string \<Rightarrow> Position \<Rightarrow> bool" where
  "within_bounds source position =
     (let lines = split_on newline source
      in 0 \<le> line position \<and> nat (line position) < length lines \<and>
         0 \<le> character position \<and>
         nat (character position) \<le> length (lines ! nat (line position)))"

lemma split_on_not_Nil: "split_on sep s \<noteq> []"
  by (induction s) (auto split: list.splits)

lemma split_on_total: "sum_list (map (\<lambda>l. length l + 1) (split_on sep s)) = length s + 1"
proof (induction s)
  case Nil
  then show ?case by simp
next
  case (Cons c cs)
  then show ?case using split_on_not_Nil [of sep cs]
    by (cases "split_on sep cs") auto
qed

lemma sum_list_take_le: "sum_list (take n (xs :: nat list)) \<le> sum_list xs"
proof -
  have "sum_list xs = sum_list (take n xs) + sum_list (drop n xs)"
    using sum_list_append [of "take n xs" "drop n xs"] by simp
  then show ?thesis by simp
qed

lemma sum_list_take_mono:
  assumes "m \<le> n"
  shows "sum_list (take m (xs :: nat list)) \<le> sum_list (take n xs)"
proof -
  have "take m xs = take m (take n xs)" using assms by (simp add: min_def)
  then show ?thesis using sum_list_take_le [of m "take n xs"] by simp
qed

lemma sum_list_take_Suc:
  assumes "n < length (xs :: nat list)"
  shows "sum_list (take (Suc n) xs) = sum_list (take n xs) + xs ! n"
  using assms by (simp add: take_Suc_conv_app_nth)

text \<open>The sum over the lines before line \<open>n\<close>: the offset at which line \<open>n\<close> starts.\<close>

definition line_offset :: "string \<Rightarrow> nat \<Rightarrow> nat" where
  "line_offset source n =
     sum_list (map (\<lambda>l. length l + 1) (take n (split_on newline source)))"

lemma line_offset_le: "line_offset source n \<le> length source + 1"
  using sum_list_take_le [of n "map (\<lambda>l. length l + 1) (split_on newline source)"]
  by (simp add: line_offset_def take_map split_on_total [simplified])

lemma line_offset_all:
  assumes "length (split_on newline source) \<le> n"
  shows "line_offset source n = length source + 1"
  using assms by (simp add: line_offset_def split_on_total [simplified])

lemma line_offset_mono: "m \<le> n \<Longrightarrow> line_offset source m \<le> line_offset source n"
  using sum_list_take_mono [of m n "map (\<lambda>l. length l + 1) (split_on newline source)"]
  by (simp add: line_offset_def take_map)

lemma line_offset_Suc:
  assumes "n < length (split_on newline source)"
  shows "line_offset source (Suc n) = line_offset source n + length (split_on newline source ! n) + 1"
  using assms
    sum_list_take_Suc [of n "map (\<lambda>l. length l + 1) (split_on newline source)"]
  by (simp add: line_offset_def take_map)

lemma position_to_offset_nonneg_line:
  assumes "0 \<le> line position"
  shows "position_to_offset source position =
           int (line_offset source (nat (line position))) + character position"
  using assms by (simp add: position_to_offset_def slice_to_def line_offset_def Let_def)

lemma position_to_offset_any_line:
  "\<exists>n. position_to_offset source position = int (line_offset source n) + character position"
  by (auto simp add: position_to_offset_def slice_to_def line_offset_def Let_def)

lemma within_bounds_offset:
  assumes "within_bounds source position"
  shows "position_to_offset source position \<le> int (length source)"
    and "0 \<le> position_to_offset source position"
proof -
  let ?n = "nat (line position)"
  have b: "0 \<le> line position" "?n < length (split_on newline source)"
    "0 \<le> character position"
    "nat (character position) \<le> length (split_on newline source ! ?n)"
    using assms by (simp_all add: within_bounds_def Let_def)
  have "line_offset source ?n + length (split_on newline source ! ?n) + 1 \<le> length source + 1"
    using line_offset_Suc [OF b(2)] line_offset_le [of source "Suc ?n"] by simp
  then have "line_offset source ?n + nat (character position) \<le> length source"
    using b(4) by simp
  then show "position_to_offset source position \<le> int (length source)"
    using b(1,3) by (simp add: position_to_offset_nonneg_line)
  show "0 \<le> position_to_offset source position"
    using b(1,3) by (simp add: position_to_offset_nonneg_line)
qed

text \<open>
  C1 (as amended). \<open>position_to_offset\<close> is a total function: the split, the slice, the
  sum and the addition never raise, whatever the position. Only the line is clamped: the
  lines before \<open>position.line\<close> add at most \<open>len(text) + 1\<close>, and exactly that once
  \<open>position.line\<close> is at least the number of lines. \<open>position.character\<close> is added as
  it is, so the offset lies between \<open>character\<close> and \<open>len(text) + 1 + character\<close>; it is
  at most \<open>len(text)\<close> for a position within the bounds of the text.
\<close>

theorem position_to_offset_line_clamped:
  "character p \<le> position_to_offset t p \<and>
   position_to_offset t p \<le> int (length t) + 1 + character p \<and>
   (int (length (split_on newline t)) \<le> line p \<longrightarrow>
      position_to_offset t p = int (length t) + 1 + character p) \<and>
   (within_bounds t p \<longrightarrow>
      0 \<le> position_to_offset t p \<and> position_to_offset t p \<le> int (length t))"
proof -
  obtain n where n: "position_to_offset t p = int (line_offset t n) + character p"
    using position_to_offset_any_line by blast
  have 1: "character p \<le> position_to_offset t p" using n by simp
  have 2: "position_to_offset t p \<le> int (length t) + 1 + character p"
    using n line_offset_le [of t n] by simp
  have 3: "position_to_offset t p = int (length t) + 1 + character p"
    if "int (length (split_on newline t)) \<le> line p"
  proof -
    have "0 \<le> line p" and "length (split_on newline t) \<le> nat (line p)" using that by simp_all
    then show ?thesis
      using position_to_offset_nonneg_line [of p t] line_offset_all [of t "nat (line p)"] by simp
  qed
  show ?thesis using 1 2 3 within_bounds_offset [of t p] by blast
qed

text \<open>
  C5. \<open>position_to_offset\<close> is a function of the text and the position (the same inputs
  give the same offset), and for two positions within the bounds of the text, a greater
  line, or the same line and a greater character, never gives a smaller offset.
\<close>

theorem position_to_offset_monotone:
  assumes "within_bounds t p" and "within_bounds t q"
    and "line p < line q \<or> (line p = line q \<and> character p < character q)"
  shows "position_to_offset t p \<le> position_to_offset t q"
proof -
  let ?m = "nat (line p)" and ?n = "nat (line q)"
  have bp: "0 \<le> line p" "?m < length (split_on newline t)"
    "nat (character p) \<le> length (split_on newline t ! ?m)"
    using assms(1) by (simp_all add: within_bounds_def Let_def)
  have bq: "0 \<le> line q" "0 \<le> character q"
    using assms(2) by (simp_all add: within_bounds_def Let_def)
  have op: "position_to_offset t p = int (line_offset t ?m) + character p"
    using bp(1) by (rule position_to_offset_nonneg_line)
  have oq: "position_to_offset t q = int (line_offset t ?n) + character q"
    using bq(1) by (rule position_to_offset_nonneg_line)
  from assms(3) show ?thesis
  proof
    assume lt: "line p < line q"
    then have "Suc ?m \<le> ?n" using bp(1) by simp
    then have "line_offset t (Suc ?m) \<le> line_offset t ?n" by (rule line_offset_mono)
    then have "line_offset t ?m + length (split_on newline t ! ?m) + 1 \<le> line_offset t ?n"
      using line_offset_Suc [OF bp(2)] by simp
    then have "int (line_offset t ?m) + character p \<le> int (line_offset t ?n)"
      using bp(3) by linarith
    then show ?thesis using op oq bq(2) by simp
  next
    assume "line p = line q \<and> character p < character q"
    then show ?thesis using op oq by simp
  qed
qed

theorem position_to_offset_line_clamped_witness:
  "within_bounds (''ab'' @ newline # ''cd'') \<lparr>line = 1, character = 1\<rparr> \<and>
   position_to_offset (''ab'' @ newline # ''cd'') \<lparr>line = 1, character = 1\<rparr>
     \<le> int (length (''ab'' @ newline # ''cd'')) \<and>
   int (length (split_on newline (''ab'' @ newline # ''cd''))) \<le> 7 \<and>
   position_to_offset (''ab'' @ newline # ''cd'') \<lparr>line = 7, character = 2\<rparr>
     = int (length (''ab'' @ newline # ''cd'')) + 1 + 2"
proof -
  have b: "within_bounds (''ab'' @ newline # ''cd'') \<lparr>line = 1, character = 1\<rparr>"
    by (simp add: within_bounds_def newline_def)
  have l: "int (length (split_on newline (''ab'' @ newline # ''cd''))) \<le> 7"
    by (simp add: newline_def)
  show ?thesis
    using b l
      position_to_offset_line_clamped [of "\<lparr>line = 1, character = 1\<rparr>" "''ab'' @ newline # ''cd''"]
      position_to_offset_line_clamped [of "\<lparr>line = 7, character = 2\<rparr>" "''ab'' @ newline # ''cd''"]
    by simp
qed

text \<open>
  C1 as stated fails: in the text \<open>abc\<close> (one line of length 3) the character 100 of line 0
  gives the offset 100, and line 5 gives the offset 4; both exceed the length 3.
\<close>

theorem position_to_offset_not_clamped:
  "\<not> position_to_offset ''abc'' \<lparr>line = 0, character = 100\<rparr> \<le> int (length ''abc'') \<and>
   \<not> position_to_offset ''abc'' \<lparr>line = 5, character = 0\<rparr> \<le> int (length ''abc'')"
  by (simp add: position_to_offset_def slice_to_def newline_def)

theorem position_to_offset_monotone_witness:
  "within_bounds (''ab'' @ newline # ''cd'') \<lparr>line = 0, character = 2\<rparr> \<and>
   within_bounds (''ab'' @ newline # ''cd'') \<lparr>line = 1, character = 0\<rparr> \<and>
   position_to_offset (''ab'' @ newline # ''cd'') \<lparr>line = 0, character = 2\<rparr>
     \<le> position_to_offset (''ab'' @ newline # ''cd'') \<lparr>line = 1, character = 0\<rparr>"
proof -
  have p: "within_bounds (''ab'' @ newline # ''cd'') \<lparr>line = 0, character = 2\<rparr>"
    by (simp add: within_bounds_def newline_def)
  have q: "within_bounds (''ab'' @ newline # ''cd'') \<lparr>line = 1, character = 0\<rparr>"
    by (simp add: within_bounds_def newline_def)
  show ?thesis using p q position_to_offset_monotone [OF p q] by simp
qed

section \<open>Properties of \<open>map_jedi_type_to_lsp\<close>\<close>

text \<open>
  C9. \<open>map_jedi_type_to_lsp\<close> is total: each of the eight kinds of the engine maps to the
  kind listed for it, and every other string maps to \<open>Text\<close>.
\<close>

theorem map_jedi_type_to_lsp_table:
  "map_jedi_type_to_lsp ''module'' = Module \<and>
   map_jedi_type_to_lsp ''class'' = Class \<and>
   map_jedi_type_to_lsp ''function'' = Function \<and>
   map_jedi_type_to_lsp ''param'' = Variable \<and>
   map_jedi_type_to_lsp ''path'' = File \<and>
   map_jedi_type_to_lsp ''keyword'' = Keyword \<and>
   map_jedi_type_to_lsp ''property'' = Property \<and>
   map_jedi_type_to_lsp ''statement'' = Variable \<and>
   (jedi_type \<notin> {''module'', ''class'', ''function'', ''param'', ''path'', ''keyword'',
                     ''property'', ''statement''} \<longrightarrow>
      map_jedi_type_to_lsp jedi_type = Text)"
  by (simp add: map_jedi_type_to_lsp_def jedi_mapping_def)

theorem map_jedi_type_to_lsp_table_witness:
  "map_jedi_type_to_lsp ''instance'' = Text \<and> map_jedi_type_to_lsp [] = Text"
  using map_jedi_type_to_lsp_table [of "''instance''"] map_jedi_type_to_lsp_table [of "[]"]
  by simp

section \<open>Properties of \<open>get_python_completions\<close>\<close>

text \<open>
  C6 (as amended). When the context is embedded-language and a collaborator raises
  (\<open>construct_ast\<close>, \<open>ast.unparse\<close>, the completion engine, or the reading of a
  completion's docstring), \<open>get_python_completions\<close> returns the empty list, provided that
  the removal of the temporary file in the \<open>finally\<close> clause does not raise. The
  collaborator's exception never reaches the caller: an exception that leaves the function
  is one raised by making the temporary file, before the \<open>try\<close>, or by removing it.
  For the text \<open><script>def f(:\<close> the result is the empty list at every position and for
  every behaviour of the collaborators: the text has no closing tag, so no position of it
  is embedded-language.
\<close>

theorem get_python_completions_failure_gives_empty:
  "(is_python_code context \<and>
    make_tmp env (full_source context) = Inr tmp_path \<and>
    unlink env tmp_path = Inr u \<and>
    (construct_ast env tmp_path (full_source context) = Inl e \<or>
     (\<exists>a. construct_ast env tmp_path (full_source context) = Inr a \<and>
          (unparse env a = Inl e \<or>
           (\<exists>v. unparse env a = Inr v \<and>
                (jedi_complete env v tmp_path (line (original_position context) + 1)
                   (character (original_position context)) = Inl e \<or>
                 (\<exists>cs. jedi_complete env v tmp_path (line (original_position context) + 1)
                          (character (original_position context)) = Inr cs \<and>
                       to_items cs = Inl e))))))
    \<longrightarrow> get_python_completions env source position context = Inr []) \<and>
   (get_python_completions env source position context = Inl e' \<longrightarrow>
      make_tmp env (full_source context) = Inl e' \<or>
      (\<exists>t. make_tmp env (full_source context) = Inr t \<and> unlink env t = Inl e')) \<and>
   get_python_completions env ''<script>def f(:'' position
     (analyze_context ''<script>def f(:'' position) = Inr []"
proof -
  have body: "try_completions env tmp_path context = Inl e"
    if "construct_ast env tmp_path (full_source context) = Inl e \<or>
     (\<exists>a. construct_ast env tmp_path (full_source context) = Inr a \<and>
          (unparse env a = Inl e \<or>
           (\<exists>v. unparse env a = Inr v \<and>
                (jedi_complete env v tmp_path (line (original_position context) + 1)
                   (character (original_position context)) = Inl e \<or>
                 (\<exists>cs. jedi_complete env v tmp_path (line (original_position context) + 1)
                          (character (original_position context)) = Inr cs \<and>
                       to_items cs = Inl e)))))"
    using that by (auto simp add: try_completions_def)
  have "finditer 0 ''<script>def f(:'' = []"
    by (simp add: finditer.simps match_here_def)
  then have "\<not> is_python_code (analyze_context ''<script>def f(:'' position)"
    by (simp add: analyze_context_def is_in_script_region_def)
  then have ex: "get_python_completions env ''<script>def f(:'' position
     (analyze_context ''<script>def f(:'' position) = Inr []"
    by (simp add: get_python_completions_def)
  have only: "make_tmp env (full_source context) = Inl e' \<or>
      (\<exists>t. make_tmp env (full_source context) = Inr t \<and> unlink env t = Inl e')"
    if "get_python_completions env source position context = Inl e'"
    using that
    by (auto simp add: get_python_completions_def Let_def split: if_splits sum.splits)
  have first: "get_python_completions env source position context = Inr []"
    if "is_python_code context \<and>
    make_tmp env (full_source context) = Inr tmp_path \<and>
    unlink env tmp_path = Inr u \<and>
    (construct_ast env tmp_path (full_source context) = Inl e \<or>
     (\<exists>a. construct_ast env tmp_path (full_source context) = Inr a \<and>
          (unparse env a = Inl e \<or>
           (\<exists>v. unparse env a = Inr v \<and>
                (jedi_complete env v tmp_path (line (original_position context) + 1)
                   (character (original_position context)) = Inl e \<or>
                 (\<exists>cs. jedi_complete env v tmp_path (line (original_position context) + 1)
                          (character (original_position context)) = Inr cs \<and>
                       to_items cs = Inl e))))))"
    using that body by (auto simp add: get_python_completions_def)
  show ?thesis using first only ex by blast
qed

text \<open>Collaborators whose \<open>construct_ast\<close> raises on every source.\<close>

definition failing_env :: "unit Collaborators" where
  "failing_env =
     \<lparr>make_tmp = (\<lambda>s. Inr ''/tmp/tmp0.cgx''),
      unlink = (\<lambda>p. Inr ()),
      construct_ast = (\<lambda>p s. Inl (Exception ''SyntaxError'')),
      unparse = (\<lambda>a. Inr []),
      jedi_complete = (\<lambda>c p l k. Inr [])\<rparr>"

theorem get_python_completions_failure_gives_empty_witness:
  "is_python_code (analyze_context ''<script>def f(:</script>'' \<lparr>line = 0, character = 9\<rparr>) \<and>
   construct_ast failing_env ''/tmp/tmp0.cgx'' ''<script>def f(:</script>''
     = Inl (Exception ''SyntaxError'') \<and>
   get_python_completions failing_env ''<script>def f(:</script>'' \<lparr>line = 0, character = 9\<rparr>
     (analyze_context ''<script>def f(:</script>'' \<lparr>line = 0, character = 9\<rparr>) = Inr []"
proof -
  let ?src = "''<script>def f(:</script>''"
  let ?pos = "\<lparr>line = 0, character = 9\<rparr>"
  have f: "finditer 0 ?src = [\<lparr>start0 = 0, end0 = 24, start1 = 8, end1 = 15\<rparr>]"
    by (simp add: finditer.simps match_here_def)
  have c: "analyze_context ?src ?pos =
             \<lparr>is_python_code = True, full_source = ?src, original_position = ?pos\<rparr>"
    by (simp add: analyze_context_def is_in_script_region_def f position_to_offset_def
        slice_to_def newline_def)
  have a: "construct_ast failing_env ''/tmp/tmp0.cgx'' ?src = Inl (Exception ''SyntaxError'')"
    by (simp add: failing_env_def)
  show ?thesis
    using a c
      get_python_completions_failure_gives_empty
        [of "analyze_context ?src ?pos" failing_env "''/tmp/tmp0.cgx''" "()"
           "Exception ''SyntaxError''" ?src ?pos]
    by (simp add: failing_env_def)
qed

text \<open>Collaborators whose \<open>construct_ast\<close> raises and whose \<open>unlink\<close> raises as well.\<close>

definition failing_unlink_env :: "unit Collaborators" where
  "failing_unlink_env =
     \<lparr>make_tmp = (\<lambda>s. Inr ''/tmp/tmp0.cgx''),
      unlink = (\<lambda>p. Inl (Exception ''PermissionError'')),
      construct_ast = (\<lambda>p s. Inl (Exception ''SyntaxError'')),
      unparse = (\<lambda>a. Inr []),
      jedi_complete = (\<lambda>c p l k. Inr [])\<rparr>"

text \<open>
  C6 as stated fails when the removal of the temporary file raises: \<open>construct_ast\<close>
  raises, \<open>except Exception\<close> turns that into \<open>return []\<close>, and the raise of \<open>unlink\<close> in
  the \<open>finally\<close> clause replaces the returned list.
\<close>

theorem unlink_failure_reaches_caller:
  "is_python_code (analyze_context ''<script>def f(:</script>'' \<lparr>line = 0, character = 9\<rparr>) \<and>
   construct_ast failing_unlink_env ''/tmp/tmp0.cgx'' ''<script>def f(:</script>''
     = Inl (Exception ''SyntaxError'') \<and>
   get_python_completions failing_unlink_env ''<script>def f(:</script>''
       \<lparr>line = 0, character = 9\<rparr>
       (analyze_context ''<script>def f(:</script>'' \<lparr>line = 0, character = 9\<rparr>)
     = Inl (Exception ''PermissionError'') \<and>
   get_python_completions failing_unlink_env ''<script>def f(:</script>''
       \<lparr>line = 0, character = 9\<rparr>
       (analyze_context ''<script>def f(:</script>'' \<lparr>line = 0, character = 9\<rparr>)
     \<noteq> Inr []"
proof -
  let ?src = "''<script>def f(:</script>''"
  let ?pos = "\<lparr>line = 0, character = 9\<rparr>"
  have f: "finditer 0 ?src = [\<lparr>start0 = 0, end0 = 24, start1 = 8, end1 = 15\<rparr>]"
    by (simp add: finditer.simps match_here_def)
  have c: "analyze_context ?src ?pos =
             \<lparr>is_python_code = True, full_source = ?src, original_position = ?pos\<rparr>"
    by (simp add: analyze_context_def is_in_script_region_def f position_to_offset_def
        slice_to_def newline_def)
  show ?thesis
    unfolding c
    by (simp add: failing_unlink_env_def get_python_completions_def try_completions_def)
qed

section \<open>Properties of the handlers of \<open>server.py\<close>\<close>

lemma documents_log_to [simp]: "documents (log_to ls level msg) = documents ls"
  by (simp add: log_to_def)

lemma published_log_to [simp]: "published (log_to ls level msg) = published ls"
  by (simp add: log_to_def)

lemma published_publish [simp]:
  "published (text_document_publish_diagnostics ls params) = published ls @ [params]"
  by (simp add: text_document_publish_diagnostics_def)

text \<open>
  C7 (as amended). For a document whose name does not end in \<open>.cgx\<close>, validation (also
  through the open, change and save events) only logs that the file is skipped and
  publishes nothing, formatting returns no edit and the token request returns the empty
  token list; none of them calls the linter, the formatter or the token provider, and none
  raises. The close event has no test of the name: for every document it publishes the
  empty list of diagnostics.
\<close>

theorem non_cgx_is_skipped_but_close_publishes:
  "(\<not> endswith u ''.cgx'' \<longrightarrow>
      validate_document sv ls u = log_to ls DEBUG (Skipping_non_CGX_file u) \<and>
      published (validate_document sv ls u) = published ls \<and>
      published (did_open sv ls u) = published ls \<and>
      published (did_change sv ls u) = published ls \<and>
      published (did_save sv ls u) = published ls \<and>
      formatting sv ls u =
        (log_to (log_to ls INFO (Formatting_document u)) DEBUG (Skipping_non_CGX_file u), []) \<and>
      snd (formatting sv ls u) = [] \<and>
      published (fst (formatting sv ls u)) = published ls \<and>
      semantic_tokens_full sv ls u =
        (log_to (log_to ls INFO (Providing_semantic_tokens u)) DEBUG (Skipping_non_CGX_file u),
         \<lparr>data = []\<rparr>) \<and>
      snd (semantic_tokens_full sv ls u) = \<lparr>data = []\<rparr> \<and>
      published (fst (semantic_tokens_full sv ls u)) = published ls) \<and>
   published (did_close ls u) = published ls @ [\<lparr>uri = u, diagnostics = []\<rparr>]"
  by (simp add: validate_document_def did_open_def did_change_def did_save_def
      formatting_def semantic_tokens_full_def did_close_def Let_def)

text \<open>Services that raise whenever they are called, and a server with no document.\<close>

definition no_services :: "unit Services" where
  "no_services =
     \<lparr>lint_cgx_content = (\<lambda>c. Inl (Exception ''linter called'')),
      format_cgx_content = (\<lambda>c u. Inl (Exception ''formatter called'')),
      get_tokens = (\<lambda>c u. Inl (Exception ''provider called'')),
      encode_tokens = (\<lambda>t. Inl (Exception ''provider called'')),
      new_Position = (\<lambda>l c. Inr \<lparr>line = l, character = c\<rparr>)\<rparr>"

definition empty_server :: Server where
  "empty_server =
     \<lparr>documents = (\<lambda>u. Inl (Exception ''no such document'')), published = [], logged = []\<rparr>"

theorem non_cgx_is_skipped_but_close_publishes_witness:
  "\<not> endswith ''file:///test.py'' ''.cgx'' \<and>
   validate_document no_services empty_server ''file:///test.py''
     = log_to empty_server DEBUG (Skipping_non_CGX_file ''file:///test.py'') \<and>
   snd (formatting no_services empty_server ''file:///test.py'') = [] \<and>
   snd (semantic_tokens_full no_services empty_server ''file:///test.py'') = \<lparr>data = []\<rparr>"
proof -
  have h: "\<not> endswith ''file:///test.py'' ''.cgx''" by (simp add: endswith_def)
  show ?thesis
    using h non_cgx_is_skipped_but_close_publishes
      [of "''file:///test.py''" no_services empty_server]
    by simp
qed

text \<open>
  C7 as stated fails at the close event: closing \<open>file:///test.py\<close> sends a
  notification.
\<close>

theorem did_close_publishes_for_non_cgx:
  "\<not> endswith ''file:///test.py'' ''.cgx'' \<and>
   published (did_close empty_server ''file:///test.py'')
     = [\<lparr>uri = ''file:///test.py'', diagnostics = []\<rparr>] \<and>
   published (did_close empty_server ''file:///test.py'') \<noteq> published empty_server"
  by (simp add: endswith_def did_close_def empty_server_def)

lemma formatting_same:
  assumes "endswith u ''.cgx''" "documents ls u = Inr content"
    "format_cgx_content sv content u = Inr content"
  shows "formatting sv ls u =
           (log_to (log_to ls INFO (Formatting_document u)) INFO (No_formatting_changes_needed u), [])"
  using assms by (simp add: formatting_def Let_def)

lemma formatting_changed:
  assumes "endswith u ''.cgx''" "documents ls u = Inr content"
    "format_cgx_content sv content u = Inr formatted" "formatted \<noteq> content"
    "new_Position sv 0 0 = Inr start"
    "new_Position sv (int (length (splitlines_keepends content)) - 1)
         (if splitlines_keepends content \<noteq> []
          then int (length (last (splitlines_keepends content))) else 0) = Inr end_pos"
  shows "formatting sv ls u =
           (log_to (log_to ls INFO (Formatting_document u)) INFO (Formatted_document u),
            [\<lparr>edit_range = \<lparr>range_start = start, range_end = end_pos\<rparr>,
              new_text = formatted\<rparr>])"
  using assms by (simp add: formatting_def Let_def)

lemma formatting_edits:
  assumes "edit \<in> set (snd (formatting sv ls u))"
  shows "\<exists>content. documents ls u = Inr content \<and>
           format_cgx_content sv content u = Inr (new_text edit) \<and> new_text edit \<noteq> content"
proof (cases "documents ls u")
  case (Inl e)
  then show ?thesis using assms by (simp add: formatting_def Let_def split: if_splits)
next
  case (Inr content)
  note doc = this
  show ?thesis
  proof (cases "format_cgx_content sv content u")
    case (Inl e)
    then show ?thesis using assms doc by (simp add: formatting_def Let_def split: if_splits)
  next
    case (Inr formatted)
    then show ?thesis using assms doc
      by (simp add: formatting_def Let_def split: if_splits sum.splits)
  qed
qed

lemma formatting_published: "published (fst (formatting sv ls u)) = published ls"
  by (simp add: formatting_def Let_def split: sum.splits)

text \<open>
  What the formatting request returns for a \<open>.cgx\<close> document that the workspace holds and
  the formatter returns a text for. When that text equals the content, the request returns
  no edit. When it differs, the request returns one edit that replaces the whole document
  by the formatter's text, if \<open>Position\<close> accepts the start and the end of the document;
  the empty document, where it does not, follows below. Every edit returned carries a text
  that differs from the content. Formatting publishes nothing.
\<close>

theorem formatting_unchanged_gives_no_edit:
  assumes "endswith u ''.cgx''"
    and "documents ls u = Inr content"
    and "format_cgx_content sv content u = Inr formatted"
  shows "(formatted = content \<longrightarrow> snd (formatting sv ls u) = []) \<and>
     (formatted \<noteq> content \<and>
      new_Position sv 0 0 = Inr start \<and>
      new_Position sv (int (length (splitlines_keepends content)) - 1)
        (if splitlines_keepends content \<noteq> []
         then int (length (last (splitlines_keepends content))) else 0) = Inr end_pos \<longrightarrow>
        snd (formatting sv ls u) =
          [\<lparr>edit_range = \<lparr>range_start = start, range_end = end_pos\<rparr>,
            new_text = formatted\<rparr>]) \<and>
     (\<forall>edit \<in> set (snd (formatting sv ls u)). new_text edit = formatted \<and> formatted \<noteq> content) \<and>
     published (fst (formatting sv ls u)) = published ls"
proof (intro conjI impI ballI)
  assume "formatted = content"
  then show "snd (formatting sv ls u) = []"
    using assms formatting_same [of u ls content sv] by simp
next
  assume "formatted \<noteq> content \<and>
       new_Position sv 0 0 = Inr start \<and>
       new_Position sv (int (length (splitlines_keepends content)) - 1)
         (if splitlines_keepends content \<noteq> []
          then int (length (last (splitlines_keepends content))) else 0) = Inr end_pos"
  then show "snd (formatting sv ls u) =
           [\<lparr>edit_range = \<lparr>range_start = start, range_end = end_pos\<rparr>,
             new_text = formatted\<rparr>]"
    using assms formatting_changed [of u ls content sv formatted start end_pos] by simp
next
  fix edit assume e: "edit \<in> set (snd (formatting sv ls u))"
  show "new_text edit = formatted" using formatting_edits [OF e] assms by auto
  show "formatted \<noteq> content" using formatting_edits [OF e] assms by auto
next
  show "published (fst (formatting sv ls u)) = published ls" by (rule formatting_published)
qed

text \<open>A formatter that puts blanks around the \<open>=\<close> of one text and leaves every other
  text as it is, and a server that holds one document.\<close>

definition spacing_services :: "unit Services" where
  "spacing_services =
     \<lparr>lint_cgx_content = (\<lambda>c. Inr []),
      format_cgx_content = (\<lambda>c u. Inr (if c = ''<script>x=1</script>'' then ''<script>x = 1</script>'' else c)),
      get_tokens = (\<lambda>c u. Inr []),
      encode_tokens = (\<lambda>t. Inr []),
      new_Position = (\<lambda>l c. Inr \<lparr>line = l, character = c\<rparr>)\<rparr>"

definition one_document :: "string \<Rightarrow> Server" where
  "one_document content =
     \<lparr>documents = (\<lambda>u. if u = ''file:///a.cgx'' then Inr content else Inl (Exception ''no such document'')),
      published = [], logged = []\<rparr>"

theorem formatting_unchanged_gives_no_edit_witness:
  "endswith ''file:///a.cgx'' ''.cgx'' \<and>
   snd (formatting spacing_services (one_document ''<script>x = 1</script>'') ''file:///a.cgx'') = [] \<and>
   snd (formatting spacing_services (one_document ''<script>x=1</script>'') ''file:///a.cgx'') =
     [\<lparr>edit_range = \<lparr>range_start = \<lparr>line = 0, character = 0\<rparr>,
                      range_end = \<lparr>line = 0, character = 20\<rparr>\<rparr>,
       new_text = ''<script>x = 1</script>''\<rparr>]"
proof (intro conjI)
  show h: "endswith ''file:///a.cgx'' ''.cgx''" by (simp add: endswith_def)
  have s: "splitlines_keepends ''<script>x=1</script>'' = [''<script>x=1</script>'']"
    by (simp add: splitlines_keepends_def is_linebreak_def)
  have d1: "documents (one_document ''<script>x = 1</script>'') ''file:///a.cgx''
              = Inr ''<script>x = 1</script>''"
    by (simp add: one_document_def)
  have f1: "format_cgx_content spacing_services ''<script>x = 1</script>'' ''file:///a.cgx''
              = Inr ''<script>x = 1</script>''"
    by (simp add: spacing_services_def)
  have d2: "documents (one_document ''<script>x=1</script>'') ''file:///a.cgx''
              = Inr ''<script>x=1</script>''"
    by (simp add: one_document_def)
  have f2: "format_cgx_content spacing_services ''<script>x=1</script>'' ''file:///a.cgx''
              = Inr ''<script>x = 1</script>''"
    by (simp add: spacing_services_def)
  have n: "''<script>x = 1</script>'' \<noteq> ''<script>x=1</script>''" by simp
  have p0: "new_Position spacing_services 0 0 = Inr \<lparr>line = 0, character = 0\<rparr>"
    by (simp add: spacing_services_def)
  have p1: "new_Position spacing_services
              (int (length (splitlines_keepends ''<script>x=1</script>'')) - 1)
              (if splitlines_keepends ''<script>x=1</script>'' \<noteq> []
               then int (length (last (splitlines_keepends ''<script>x=1</script>''))) else 0)
            = Inr \<lparr>line = 0, character = 20\<rparr>"
    by (simp add: spacing_services_def s)
  show "snd (formatting spacing_services (one_document ''<script>x = 1</script>'') ''file:///a.cgx'') = []"
    by (rule mp [OF formatting_unchanged_gives_no_edit [OF h d1 f1, THEN conjunct1]]) (rule refl)
  show "snd (formatting spacing_services (one_document ''<script>x=1</script>'') ''file:///a.cgx'') =
     [\<lparr>edit_range = \<lparr>range_start = \<lparr>line = 0, character = 0\<rparr>,
                      range_end = \<lparr>line = 0, character = 20\<rparr>\<rparr>,
       new_text = ''<script>x = 1</script>''\<rparr>]"
  proof (rule mp [OF formatting_unchanged_gives_no_edit [OF h d2 f2, THEN conjunct2, THEN conjunct1]])
    show "''<script>x = 1</script>'' \<noteq> ''<script>x=1</script>'' \<and>
      new_Position spacing_services 0 0 = Inr \<lparr>line = 0, character = 0\<rparr> \<and>
      new_Position spacing_services
              (int (length (splitlines_keepends ''<script>x=1</script>'')) - 1)
              (if splitlines_keepends ''<script>x=1</script>'' \<noteq> []
               then int (length (last (splitlines_keepends ''<script>x=1</script>''))) else 0)
            = Inr \<lparr>line = 0, character = 20\<rparr>"
      using n p0 p1 by (intro conjI)
  qed
qed

subsection \<open>Formatting the empty document\<close>

text \<open>
  The constructor \<open>Position\<close> of \<open>lsprotocol\<close>: the protocol makes \<open>line\<close> and \<open>character\<close>
  unsigned integers (\<open>uinteger\<close>, from 0 to \<open>2^31 - 1\<close>), and the constructor raises
  \<open>ValueError\<close> for a value outside that range.
\<close>

definition uinteger_Position :: "int \<Rightarrow> int \<Rightarrow> exception + Position" where
  "uinteger_Position l c =
     (if 0 \<le> l \<and> l \<le> 2147483647 \<and> 0 \<le> c \<and> c \<le> 2147483647
      then Inr \<lparr>line = l, character = c\<rparr>
      else Inl (Exception ''ValueError''))"

text \<open>A formatter that ends every text with a newline, with the constructor above.\<close>

definition newline_services :: "unit Services" where
  "newline_services =
     \<lparr>lint_cgx_content = (\<lambda>c. Inr []),
      format_cgx_content =
        (\<lambda>c u. Inr (if c \<noteq> [] \<and> last c = newline then c else c @ [newline])),
      get_tokens = (\<lambda>c u. Inr []),
      encode_tokens = (\<lambda>t. Inr []),
      new_Position = uinteger_Position\<rparr>"

text \<open>
  C8 (a defect of the code). The claim holds where the formatter's text equals the content
  (no edit) and for every document that is not empty (one edit with the formatter's text,
  as for the document \<open>x\<close> below). For the empty document the code misses the case:
  \<open>splitlines\<close> gives no line, \<open>last_line = len(lines) - 1\<close> is \<open>-1\<close> (only \<open>last_char\<close>
  has the guard \<open>if lines else 0\<close>), \<open>Position(line=-1, ...)\<close> raises, and
  \<open>except Exception\<close> returns no edit although the formatter's text differs from the
  content.
\<close>

theorem empty_document_changed_output_gives_no_edit:
  "endswith ''file:///a.cgx'' ''.cgx'' \<and>
   documents (one_document []) ''file:///a.cgx'' = Inr [] \<and>
   format_cgx_content newline_services [] ''file:///a.cgx'' = Inr [newline] \<and>
   [newline] \<noteq> ([] :: string) \<and>
   int (length (splitlines_keepends [])) - 1 = - 1 \<and>
   new_Position newline_services (- 1) 0 = Inl (Exception ''ValueError'') \<and>
   formatting newline_services (one_document []) ''file:///a.cgx'' =
     (\<lparr>documents = documents (one_document []), published = [],
        logged = [(INFO, Formatting_document ''file:///a.cgx''),
                  (ERROR, Error_formatting_document ''file:///a.cgx'' (Exception ''ValueError''))]\<rparr>,
      []) \<and>
   snd (formatting newline_services (one_document ''x'') ''file:///a.cgx'') =
     [\<lparr>edit_range = \<lparr>range_start = \<lparr>line = 0, character = 0\<rparr>,
                      range_end = \<lparr>line = 0, character = 1\<rparr>\<rparr>,
       new_text = ''x'' @ [newline]\<rparr>]"
proof (intro conjI)
  show "endswith ''file:///a.cgx'' ''.cgx''" by (simp add: endswith_def)
  show "documents (one_document []) ''file:///a.cgx'' = Inr []" by (simp add: one_document_def)
  show "format_cgx_content newline_services [] ''file:///a.cgx'' = Inr [newline]"
    by (simp add: newline_services_def)
  show "[newline] \<noteq> ([] :: string)" by simp
  show "int (length (splitlines_keepends [])) - 1 = - 1" by (simp add: splitlines_keepends_def)
  show "new_Position newline_services (- 1) 0 = Inl (Exception ''ValueError'')"
    by (simp add: newline_services_def uinteger_Position_def)
  show "formatting newline_services (one_document []) ''file:///a.cgx'' =
     (\<lparr>documents = documents (one_document []), published = [],
        logged = [(INFO, Formatting_document ''file:///a.cgx''),
                  (ERROR, Error_formatting_document ''file:///a.cgx'' (Exception ''ValueError''))]\<rparr>,
      [])"
    by (simp add: formatting_def Let_def endswith_def one_document_def newline_services_def
        uinteger_Position_def splitlines_keepends_def log_to_def)
  show "snd (formatting newline_services (one_document ''x'') ''file:///a.cgx'') =
     [\<lparr>edit_range = \<lparr>range_start = \<lparr>line = 0, character = 0\<rparr>,
                      range_end = \<lparr>line = 0, character = 1\<rparr>\<rparr>,
       new_text = ''x'' @ [newline]\<rparr>]"
    by (simp add: formatting_def Let_def endswith_def one_document_def newline_services_def
        uinteger_Position_def splitlines_keepends_def log_to_def newline_def)
qed

section \<open>Properties of the region scan and of \<open>is_in_script_region\<close>\<close>

subsection \<open>Where a tag stands in a text\<close>

lemma starts_with_iff: "starts_with s l \<longleftrightarrow> (\<exists>r. s = l @ r)"
proof
  assume "starts_with s l"
  then have "s = l @ drop (length l) s"
    using append_take_drop_id [of "length l" s] by (simp add: starts_with_def)
  then show "\<exists>r. s = l @ r" by blast
next
  assume "\<exists>r. s = l @ r"
  then show "starts_with s l" by (auto simp add: starts_with_def)
qed

lemma starts_with_length: "starts_with s l \<Longrightarrow> length l \<le> length s"
  by (auto simp add: starts_with_iff)

lemma starts_with_Nil [simp]: "starts_with [] l \<longleftrightarrow> l = []"
  by (auto simp add: starts_with_def)

lemma str_find_None:
  "str_find s pat = None \<longleftrightarrow> (\<forall>i\<le>length s. \<not> starts_with (drop i s) pat)"
proof (induction s)
  case Nil
  then show ?case by simp
next
  case (Cons c cs)
  have "(\<forall>i\<le>length (c # cs). \<not> starts_with (drop i (c # cs)) pat) \<longleftrightarrow>
        \<not> starts_with (c # cs) pat \<and> (\<forall>i\<le>length cs. \<not> starts_with (drop i cs) pat)"
    (is "?L \<longleftrightarrow> ?R")
  proof
    assume L: ?L
    have "\<not> starts_with (drop 0 (c # cs)) pat" using L by blast
    moreover have "\<forall>i\<le>length cs. \<not> starts_with (drop i cs) pat"
    proof (intro allI impI)
      fix i assume "i \<le> length cs"
      then have "Suc i \<le> length (c # cs)" by simp
      then have "\<not> starts_with (drop (Suc i) (c # cs)) pat" using L by blast
      then show "\<not> starts_with (drop i cs) pat" by simp
    qed
    ultimately show ?R by simp
  next
    assume R: ?R
    show ?L
    proof (intro allI impI)
      fix i assume i: "i \<le> length (c # cs)"
      show "\<not> starts_with (drop i (c # cs)) pat"
      proof (cases i)
        case 0
        then show ?thesis using R by simp
      next
        case (Suc i')
        then show ?thesis using R i by auto
      qed
    qed
  qed
  then show ?case using Cons by simp
qed

lemma str_find_Some:
  "str_find s pat = Some k \<longleftrightarrow>
     k \<le> length s \<and> starts_with (drop k s) pat \<and> (\<forall>j<k. \<not> starts_with (drop j s) pat)"
proof (induction s arbitrary: k)
  case Nil
  then show ?case by auto
next
  case (Cons c cs)
  show ?case
  proof (cases "starts_with (c # cs) pat")
    case True
    have "k \<le> length (c # cs) \<and> starts_with (drop k (c # cs)) pat \<and>
          (\<forall>j<k. \<not> starts_with (drop j (c # cs)) pat) \<longleftrightarrow> k = 0"
    proof
      assume a: "k \<le> length (c # cs) \<and> starts_with (drop k (c # cs)) pat \<and>
          (\<forall>j<k. \<not> starts_with (drop j (c # cs)) pat)"
      show "k = 0"
      proof (rule ccontr)
        assume "k \<noteq> 0"
        then have "\<not> starts_with (drop 0 (c # cs)) pat" using a by blast
        then show False using True by simp
      qed
    next
      assume "k = 0"
      then show "k \<le> length (c # cs) \<and> starts_with (drop k (c # cs)) pat \<and>
          (\<forall>j<k. \<not> starts_with (drop j (c # cs)) pat)" using True by simp
    qed
    then show ?thesis using True by auto
  next
    case False
    have "k \<le> length (c # cs) \<and> starts_with (drop k (c # cs)) pat \<and>
          (\<forall>j<k. \<not> starts_with (drop j (c # cs)) pat) \<longleftrightarrow>
          (\<exists>k'. k = Suc k' \<and> k' \<le> length cs \<and> starts_with (drop k' cs) pat \<and>
             (\<forall>j<k'. \<not> starts_with (drop j cs) pat))" (is "?L \<longleftrightarrow> ?R")
    proof
      assume L: ?L
      have "k \<noteq> 0" using L False by (cases k) auto
      then obtain k' where k': "k = Suc k'" by (cases k) auto
      have "\<forall>j<k'. \<not> starts_with (drop j cs) pat"
      proof (intro allI impI)
        fix j assume "j < k'"
        then have "Suc j < k" using k' by simp
        then have "\<not> starts_with (drop (Suc j) (c # cs)) pat" using L by blast
        then show "\<not> starts_with (drop j cs) pat" by simp
      qed
      then show ?R using L k' by auto
    next
      assume ?R
      then obtain k' where k': "k = Suc k'" "k' \<le> length cs" "starts_with (drop k' cs) pat"
        "\<forall>j<k'. \<not> starts_with (drop j cs) pat" by blast
      have "\<forall>j<k. \<not> starts_with (drop j (c # cs)) pat"
      proof (intro allI impI)
        fix j assume j: "j < k"
        show "\<not> starts_with (drop j (c # cs)) pat"
        proof (cases j)
          case 0
          then show ?thesis using False by simp
        next
          case (Suc j')
          then show ?thesis using k'(1,4) j by auto
        qed
      qed
      then show ?L using k' by simp
    qed
    then show ?thesis using False Cons [of "k - 1"] by (cases k) auto
  qed
qed

text \<open>A pattern whose first character does not occur again in it cannot start inside
  \<open>u\<close> and end inside a text that follows \<open>u\<close> and starts with that character.\<close>

lemma starts_with_straddle:
  assumes c: "c \<notin> set r" and u: "u \<noteq> []" and v: "v = [] \<or> hd v = c"
  shows "starts_with (u @ v) (c # r) \<longleftrightarrow> starts_with u (c # r)"
proof
  assume "starts_with u (c # r)"
  then obtain w where "u = (c # r) @ w" unfolding starts_with_iff by blast
  then have "u @ v = (c # r) @ (w @ v)" by simp
  then show "starts_with (u @ v) (c # r)" unfolding starts_with_iff by blast
next
  assume a: "starts_with (u @ v) (c # r)"
  then obtain w where w: "u @ v = (c # r) @ w" unfolding starts_with_iff by blast
  show "starts_with u (c # r)"
  proof (cases "length (c # r) \<le> length u")
    case True
    have "take (length (c # r)) u = take (length (c # r)) (u @ v)" using True by simp
    also have "\<dots> = c # r" using w by simp
    finally show ?thesis by (simp add: starts_with_def)
  next
    case False
    then have lt: "length u < length (c # r)" by simp
    have "length (c # r) \<le> length (u @ v)" using w by simp
    then have vne: "v \<noteq> []" using lt by auto
    then have hv: "hd v = c" using v by simp
    have "(u @ v) ! length u = hd v" using vne by (simp add: nth_append hd_conv_nth)
    moreover have "(u @ v) ! length u = (c # r) ! length u"
    proof -
      have "(u @ v) ! length u = ((c # r) @ w) ! length u" by (simp only: w)
      also have "\<dots> = (c # r) ! length u" using lt by (simp only: nth_append if_True)
      finally show ?thesis .
    qed
    ultimately have "(c # r) ! length u = c" using hv by simp
    moreover have "0 < length u" using u by simp
    ultimately have "r ! (length u - 1) = c" by (simp add: nth_Cons')
    moreover have "length u - 1 < length r" using lt u by (cases u) auto
    ultimately have "c \<in> set r" using nth_mem by metis
    then show ?thesis using c by simp
  qed
qed

lemma match_here_no_opening:
  assumes "\<not> starts_with s ''<script''"
  shows "match_here p s = None"
proof -
  have "lit ''<script'' p s = None" using assms lit_None_iff [of "''<script''" p s]
    by (simp add: starts_with_def)
  then show ?thesis by (simp add: match_here_alt)
qed

lemma no_opening_before:
  assumes pre: "str_find pre ''<script'' = None" and i: "i < length pre"
  shows "match_here q (drop i (pre @ ''<script'' @ x)) = None"
proof -
  have "\<not> starts_with (drop i pre) ''<script''"
    using pre i unfolding str_find_None by simp
  moreover have "starts_with (drop i pre @ (''<script'' @ x)) (CHR ''<'' # ''script'')
                   \<longleftrightarrow> starts_with (drop i pre) (CHR ''<'' # ''script'')"
    using i by (intro starts_with_straddle) simp_all
  ultimately have "\<not> starts_with (drop i (pre @ ''<script'' @ x)) ''<script''"
    using i by simp
  then show ?thesis by (rule match_here_no_opening)
qed

lemma closing_in_rest:
  assumes d: "drop i (''<script'' @ attrs @ ''>'' @ rest) =
                ''<script'' @ a @ ''>'' @ c @ ''</script>'' @ r"
    and attrs: "CHR ''>'' \<notin> set attrs"
  shows "\<exists>k\<le>length rest. starts_with (drop k rest) ''</script>''"
proof -
  let ?D = "''<script'' @ attrs @ ''>'' @ rest"
  let ?h = "''<script'' @ attrs"
  have D: "?D = ?h @ ''>'' @ rest" by simp
  have len: "i + (7 + length a) < length ?D"
  proof -
    have "length (drop i ?D) = length (''<script'' @ a @ ''>'' @ c @ ''</script>'' @ r)"
      using d by simp
    then show ?thesis by simp
  qed
  have "drop i ?D ! (7 + length a) = CHR ''>''"
    unfolding d by (simp add: nth_append)
  then have gt: "?D ! (i + (7 + length a)) = CHR ''>''"
    using len by simp
  have ge: "length ?h \<le> i + (7 + length a)"
  proof (rule ccontr)
    assume "\<not> length ?h \<le> i + (7 + length a)"
    then have lt: "i + (7 + length a) < length ?h" by simp
    then have "?D ! (i + (7 + length a)) = ?h ! (i + (7 + length a))"
      unfolding D by (simp only: nth_append if_True)
    then have "CHR ''>'' \<in> set ?h" using gt lt nth_mem [of "i + (7 + length a)" ?h] by simp
    then show False using attrs by simp
  qed
  define K where "K = i + (8 + length a + length c)"
  have "drop K ?D = drop (8 + length a + length c) (drop i ?D)"
    by (simp add: K_def add.commute)
  also have "\<dots> = ''</script>'' @ r"
  proof -
    define X where "X = ''<script'' @ a @ ''>'' @ c"
    have "drop i ?D = X @ (''</script>'' @ r)" unfolding d X_def by simp
    moreover have "length X = 8 + length a + length c" by (simp add: X_def)
    ultimately show ?thesis by simp
  qed
  finally have dK: "drop K ?D = ''</script>'' @ r" .
  have K8: "8 + length attrs \<le> K" using ge by (simp add: K_def)
  have "drop K ?D = drop (K - (8 + length attrs)) rest"
  proof -
    define T where "T = ''<script'' @ attrs @ ''>''"
    have e: "?D = T @ rest" by (simp add: T_def)
    have l: "length T = 8 + length attrs" by (simp add: T_def)
    have "drop K (T @ rest) = drop (K - (8 + length attrs)) rest" using l K8 by simp
    then show ?thesis by (simp only: e)
  qed
  then have "starts_with (drop (K - (8 + length attrs)) rest) ''</script>''"
    using dK by (simp add: starts_with_iff)
  moreover from this have "K - (8 + length attrs) \<le> length rest"
    using starts_with_length [of "drop (K - (8 + length attrs)) rest" "''</script>''"] by simp
  ultimately show ?thesis by blast
qed

subsection \<open>The first match of a text that starts a tag\<close>

lemma search_tag:
  assumes pre: "str_find pre ''<script'' = None" and attrs: "CHR ''>'' \<notin> set attrs"
  shows "search p (pre @ ''<script'' @ attrs @ ''>'' @ rest) =
     (case str_find rest ''</script>'' of
        None \<Rightarrow> None
      | Some k \<Rightarrow>
          Some (\<lparr>start0 = p + length pre,
                 end0 = p + length pre + 8 + length attrs + k + 9,
                 start1 = p + length pre + 8 + length attrs,
                 end1 = p + length pre + 8 + length attrs + k\<rparr>,
                drop (k + 9) rest))"
proof (cases "str_find rest ''</script>''")
  case None
  let ?doc = "pre @ ''<script'' @ attrs @ ''>'' @ rest"
  have "match_here (p + i) (drop i ?doc) = None" if "i \<le> length ?doc" for i
  proof (cases "i < length pre")
    case True
    then show ?thesis using no_opening_before [OF pre] by blast
  next
    case False
    show ?thesis
    proof (rule ccontr)
      assume "match_here (p + i) (drop i ?doc) \<noteq> None"
      then obtain m r where "match_here (p + i) (drop i ?doc) = Some (m, r)" by auto
      then obtain a c where
        "drop i ?doc = ''<script'' @ a @ ''>'' @ c @ ''</script>'' @ r"
        unfolding match_here_Some by blast
      moreover have "drop i ?doc = drop (i - length pre) (''<script'' @ attrs @ ''>'' @ rest)"
        using False by simp
      ultimately have "drop (i - length pre) (''<script'' @ attrs @ ''>'' @ rest) =
          ''<script'' @ a @ ''>'' @ c @ ''</script>'' @ r" by simp
      then have "\<exists>k\<le>length rest. starts_with (drop k rest) ''</script>''"
        using attrs by (rule closing_in_rest)
      then show False using None unfolding str_find_None by blast
    qed
  qed
  then have "search p ?doc = None" unfolding search_None by blast
  then show ?thesis using None by simp
next
  case (Some k)
  let ?doc = "pre @ ''<script'' @ attrs @ ''>'' @ rest"
  let ?m = "\<lparr>start0 = p + length pre,
                 end0 = p + length pre + 8 + length attrs + k + 9,
                 start1 = p + length pre + 8 + length attrs,
                 end1 = p + length pre + 8 + length attrs + k\<rparr>"
  have k: "k \<le> length rest" "starts_with (drop k rest) ''</script>''"
    "\<forall>j<k. \<not> starts_with (drop j rest) ''</script>''"
    using Some unfolding str_find_Some by simp_all
  define content where "content = take k rest"
  define post where "post = drop (k + 9) rest"
  have len: "length content = k" using k(1) by (simp add: content_def)
  obtain w where w: "drop k rest = ''</script>'' @ w"
    using k(2) unfolding starts_with_iff by blast
  have "drop 9 (drop k rest) = w" unfolding w by simp
  then have "post = w" by (simp add: post_def add.commute)
  then have dk: "drop k rest = ''</script>'' @ post" using w by simp
  have rest: "rest = content @ ''</script>'' @ post"
    using append_take_drop_id [of k rest] dk by (simp add: content_def)
  have early: "\<forall>j<length content. \<not> starts_with (drop j (content @ ''</script>'' @ post)) ''</script>''"
    using k(3) len rest by simp
  have "match_here (p + length pre) (''<script'' @ attrs @ ''>'' @ content @ ''</script>'' @ post)
          = Some (?m, post)"
    unfolding match_here_Some using attrs early len by auto
  then have here: "match_here (p + length pre) (drop (length pre) ?doc) = Some (?m, post)"
    using rest by simp
  have before: "\<forall>j<length pre. match_here (p + j) (drop j ?doc) = None"
    using no_opening_before [OF pre] by blast
  have "length pre \<le> length ?doc" by simp
  then have "search p ?doc = Some (?m, post)"
    unfolding search_Some using here before by blast
  then show ?thesis using Some by (simp add: post_def)
qed

text \<open>The same match, counted from another offset.\<close>

definition shift :: "nat \<Rightarrow> Match \<Rightarrow> Match" where
  "shift n m =
     \<lparr>start0 = start0 m + n, end0 = end0 m + n, start1 = start1 m + n, end1 = end1 m + n\<rparr>"

lemma match_here_shift:
  "match_here (p + n) s = map_option (\<lambda>(m, r). (shift n m, r)) (match_here p s)"
proof (cases "match_here p s")
  case None
  have "match_here (p + n) s = None"
  proof (rule ccontr)
    assume "match_here (p + n) s \<noteq> None"
    then obtain m r where "match_here (p + n) s = Some (m, r)" by auto
    then obtain a c where
      ac: "s = ''<script'' @ a @ ''>'' @ c @ ''</script>'' @ r" "CHR ''>'' \<notin> set a"
        "\<forall>j<length c. \<not> starts_with (drop j (c @ ''</script>'' @ r)) ''</script>''"
      unfolding match_here_Some by blast
    have "match_here p s = Some (\<lparr>start0 = p, end0 = p + 8 + length a + length c + 9,
              start1 = p + 8 + length a, end1 = p + 8 + length a + length c\<rparr>, r)"
      unfolding match_here_Some using ac by blast
    then show False using None by simp
  qed
  then show ?thesis using None by simp
next
  case (Some x)
  obtain m r where x: "x = (m, r)" by (cases x)
  have "match_here p s = Some (m, r)" using Some x by simp
  then obtain a c where
    ac: "s = ''<script'' @ a @ ''>'' @ c @ ''</script>'' @ r" "CHR ''>'' \<notin> set a"
      "\<forall>j<length c. \<not> starts_with (drop j (c @ ''</script>'' @ r)) ''</script>''"
      "m = \<lparr>start0 = p, end0 = p + 8 + length a + length c + 9,
              start1 = p + 8 + length a, end1 = p + 8 + length a + length c\<rparr>"
    unfolding match_here_Some by blast
  have "shift n m = \<lparr>start0 = p + n, end0 = p + n + 8 + length a + length c + 9,
              start1 = p + n + 8 + length a, end1 = p + n + 8 + length a + length c\<rparr>"
    using ac(4) by (simp add: shift_def)
  then have "match_here (p + n) s = Some (shift n m, r)"
    unfolding match_here_Some using ac(1,2,3) by blast
  then show ?thesis using Some x by simp
qed

lemma search_shift:
  "search (p + n) s = map_option (\<lambda>(m, r). (shift n m, r)) (search p s)"
proof (induction s arbitrary: p)
  case Nil
  then show ?case by (simp add: match_here_shift)
next
  case (Cons c cs)
  show ?case
  proof (cases "match_here p (c # cs)")
    case None
    then show ?thesis using Cons [of "Suc p"] match_here_shift [of p n "c # cs"] by simp
  next
    case (Some x)
    then show ?thesis using match_here_shift [of p n "c # cs"] by simp
  qed
qed

lemma finditer_shift: "finditer (p + n) s = map (shift n) (finditer p s)"
proof (induction p s arbitrary: n rule: finditer.induct)
  case (1 p s)
  show ?case
  proof (cases "search p s")
    case None
    then have "search (p + n) s = None" by (simp add: search_shift)
    then show ?thesis using None by (simp add: finditer.simps)
  next
    case (Some x)
    obtain m r where x: "x = (m, r)" by (cases x)
    have s: "search p s = Some (m, r)" using Some x by simp
    have sn: "search (p + n) s = Some (shift n m, r)" using s by (simp add: search_shift)
    have ih: "finditer (end0 m + n) r = map (shift n) (finditer (end0 m) r)"
      using "1.IH" [OF Some x [symmetric]] by simp
    have "finditer (p + n) s = shift n m # finditer (end0 (shift n m)) r"
      using sn by (simp add: finditer.simps [of "p + n" s])
    also have "\<dots> = shift n m # map (shift n) (finditer (end0 m) r)"
      using ih by (simp add: shift_def)
    also have "\<dots> = map (shift n) (finditer p s)"
      using s by (simp add: finditer.simps [of p s])
    finally show ?thesis .
  qed
qed

subsection \<open>Every match is a tag pair of the text\<close>

lemma finditer_sound:
  assumes "m \<in> set (finditer p s)"
  shows "\<exists>attrs content r.
           p \<le> start0 m \<and>
           drop (start0 m - p) s = ''<script'' @ attrs @ ''>'' @ content @ ''</script>'' @ r \<and>
           CHR ''>'' \<notin> set attrs \<and>
           start1 m = start0 m + 8 + length attrs \<and>
           end1 m = start1 m + length content \<and>
           end0 m = end1 m + 9"
  using assms
proof (induction p s rule: finditer.induct)
  case (1 p s)
  show ?case
  proof (cases "search p s")
    case None
    then show ?thesis using "1.prems" by (simp add: finditer.simps [of p s])
  next
    case (Some x)
    obtain m0 rest where x: "x = (m0, rest)" by (cases x)
    have s: "search p s = Some (m0, rest)" using Some x by simp
    obtain i a c where sh:
      "s = take i s @ ''<script'' @ a @ ''>'' @ c @ ''</script>'' @ rest"
      "i \<le> length s" "CHR ''>'' \<notin> set a"
      "m0 = \<lparr>start0 = p + i, end0 = p + i + 8 + length a + length c + 9,
             start1 = p + i + 8 + length a, end1 = p + i + 8 + length a + length c\<rparr>"
      using search_shape [OF s] by blast
    have mem: "m = m0 \<or> m \<in> set (finditer (end0 m0) rest)"
      using "1.prems" s by (simp add: finditer.simps [of p s])
    then show ?thesis
    proof
      assume m: "m = m0"
      have "drop i s = drop i (take i s @ ''<script'' @ a @ ''>'' @ c @ ''</script>'' @ rest)"
        using sh(1) by simp
      also have "\<dots> = ''<script'' @ a @ ''>'' @ c @ ''</script>'' @ rest"
        using sh(2) by simp
      finally have "drop (start0 m - p) s = ''<script'' @ a @ ''>'' @ c @ ''</script>'' @ rest"
        using m sh(4) by simp
      then show ?thesis using m sh(3,4) by auto
    next
      assume "m \<in> set (finditer (end0 m0) rest)"
      then obtain attrs content r where ih:
        "end0 m0 \<le> start0 m"
        "drop (start0 m - end0 m0) rest = ''<script'' @ attrs @ ''>'' @ content @ ''</script>'' @ r"
        "CHR ''>'' \<notin> set attrs"
        "start1 m = start0 m + 8 + length attrs"
        "end1 m = start1 m + length content"
        "end0 m = end1 m + 9"
        using "1.IH" [OF Some x [symmetric]] by blast
      define H where "H = take i s @ ''<script'' @ a @ ''>'' @ c @ ''</script>''"
      have sH: "s = H @ rest" using sh(1) by (simp add: H_def)
      have lH: "length H = end0 m0 - p" using sh(2,4) by (simp add: H_def)
      have pe: "p \<le> end0 m0" using sh(4) by simp
      have "start0 m - p = length H + (start0 m - end0 m0)" using lH pe ih(1) by simp
      then have "drop (start0 m - p) (H @ rest) = drop (start0 m - end0 m0) rest" by simp
      then have "drop (start0 m - p) s = ''<script'' @ attrs @ ''>'' @ content @ ''</script>'' @ r"
        using ih(2) sH by simp
      moreover have "p \<le> start0 m" using pe ih(1) by simp
      ultimately show ?thesis using ih(3,4,5,6) by blast
    qed
  qed
qed

lemma finditer_bounds:
  assumes "m \<in> set (finditer p s)"
  shows "p + 8 \<le> start1 m" and "start1 m \<le> end1 m" and "end0 m = end1 m + 9"
    and "p \<le> start0 m" and "start0 m + 8 \<le> start1 m"
  using finditer_sound [OF assms] by auto

lemma finditer_opening:
  assumes "m \<in> set (finditer 0 s)"
  shows "starts_with (drop (start0 m) s) ''<script''"
proof -
  obtain attrs content r where
    "drop (start0 m) s = ''<script'' @ (attrs @ ''>'' @ content @ ''</script>'' @ r)"
    using finditer_sound [OF assms] by auto
  then show ?thesis unfolding starts_with_iff by blast
qed

lemma finditer_closing:
  assumes "m \<in> set (finditer 0 s)"
  shows "starts_with (drop (end1 m) s) ''</script>''" and "end1 m \<le> length s"
proof -
  obtain attrs content r where f:
    "drop (start0 m) s = ''<script'' @ attrs @ ''>'' @ content @ ''</script>'' @ r"
    "end1 m = start0 m + (8 + length attrs + length content)"
    using finditer_sound [OF assms] by auto
  define X where "X = ''<script'' @ attrs @ ''>'' @ content"
  have dX: "drop (start0 m) s = X @ (''</script>'' @ r)" using f(1) by (simp add: X_def)
  have lX: "length X = 8 + length attrs + length content" by (simp add: X_def)
  have "drop (end1 m) s = drop (length X) (drop (start0 m) s)"
    using f(2) lX by (simp add: add.commute)
  also have "\<dots> = ''</script>'' @ r" unfolding dX by simp
  finally have d: "drop (end1 m) s = ''</script>'' @ r" .
  then show "starts_with (drop (end1 m) s) ''</script>''" unfolding starts_with_iff by blast
  have "drop (end1 m) s \<noteq> []" using d by simp
  then show "end1 m \<le> length s" by simp
qed

lemma any_contains_iff:
  "any_contains ms offset \<longleftrightarrow>
     (\<exists>m\<in>set ms. int (start1 m) \<le> offset \<and> offset \<le> int (end1 m))"
  by (induction ms) auto

lemma is_in_script_region_iff:
  "is_in_script_region source position \<longleftrightarrow>
     (\<exists>m\<in>set (finditer 0 source).
        int (start1 m) \<le> position_to_offset source position \<and>
        position_to_offset source position \<le> int (end1 m))"
  by (simp add: is_in_script_region_def any_contains_iff Let_def)

lemma is_python_code_analyze_context [simp]:
  "is_python_code (analyze_context source position) = is_in_script_region source position"
  by (simp add: analyze_context_def)

lemma unterminated_not_reached:
  assumes m: "m \<in> set (finditer 0 source)"
    and none: "str_find (drop i source) ''</script>'' = None"
  shows "end1 m < i"
proof (rule ccontr)
  assume "\<not> end1 m < i"
  then have ge: "i \<le> end1 m" by simp
  have "drop (end1 m - i) (drop i source) = drop (end1 m) source" using ge by simp
  then have "starts_with (drop (end1 m - i) (drop i source)) ''</script>''"
    using finditer_closing(1) [OF m] by simp
  moreover have "end1 m - i \<le> length (drop i source)"
    using finditer_closing(2) [OF m] ge by simp
  ultimately show False using none unfolding str_find_None by blast
qed

lemma first_tag_unterminated:
  assumes first: "str_find source ''<script'' = Some i"
    and none: "str_find (drop i source) ''</script>'' = None"
  shows "finditer 0 source = []"
proof (rule ccontr)
  assume "finditer 0 source \<noteq> []"
  then obtain m where m: "m \<in> set (finditer 0 source)" by (cases "finditer 0 source") auto
  have "\<forall>j<i. \<not> starts_with (drop j source) ''<script''"
    using first unfolding str_find_Some by blast
  then have "i \<le> start0 m" using finditer_opening [OF m] by (meson not_le)
  moreover have "end1 m < i" using m none by (rule unterminated_not_reached)
  moreover have "start0 m + 8 \<le> start1 m" "start1 m \<le> end1 m"
    using finditer_bounds [OF m] by simp_all
  ultimately show False by simp
qed

subsection \<open>Unterminated tags\<close>

text \<open>
  C3 (as amended). Where an opening tag at offset \<open>i\<close> has no closing tag after it, no
  region reaches it (every region ends before \<open>i\<close>, so the scan yields zero regions for
  that tag), and every position at or after the tag is classified not-embedded by
  \<open>is_in_script_region\<close> and by \<open>analyze_context\<close>. Where the first opening tag of the
  text has no closing tag after it, the scan yields no region at all and every position of
  the text is not-embedded; \<open><script>x = 1\<close> is such a text.
\<close>

theorem unterminated_tag_not_embedded:
  "(starts_with (drop i source) ''<script'' \<and> str_find (drop i source) ''</script>'' = None \<longrightarrow>
      (\<forall>m \<in> set (finditer 0 source). end1 m < i) \<and>
      (int i \<le> position_to_offset source position \<longrightarrow>
         \<not> is_in_script_region source position \<and>
         \<not> is_python_code (analyze_context source position))) \<and>
   (str_find source ''<script'' = Some i \<and> str_find (drop i source) ''</script>'' = None \<longrightarrow>
      finditer 0 source = [] \<and>
      \<not> is_in_script_region source position \<and>
      \<not> is_python_code (analyze_context source position))"
proof (intro conjI impI ballI)
  fix m
  assume "starts_with (drop i source) ''<script'' \<and> str_find (drop i source) ''</script>'' = None"
    and "m \<in> set (finditer 0 source)"
  then show "end1 m < i" using unterminated_not_reached by blast
next
  assume a: "starts_with (drop i source) ''<script'' \<and> str_find (drop i source) ''</script>'' = None"
    and o: "int i \<le> position_to_offset source position"
  show n: "\<not> is_in_script_region source position"
  proof
    assume "is_in_script_region source position"
    then obtain m where m: "m \<in> set (finditer 0 source)"
      "position_to_offset source position \<le> int (end1 m)"
      unfolding is_in_script_region_iff by blast
    have "end1 m < i" using m(1) a unterminated_not_reached by blast
    then show False using m(2) o by simp
  qed
  show "\<not> is_python_code (analyze_context source position)" using n by simp
next
  assume a: "str_find source ''<script'' = Some i \<and> str_find (drop i source) ''</script>'' = None"
  show e: "finditer 0 source = []" using a first_tag_unterminated by blast
  show n: "\<not> is_in_script_region source position"
    using e by (simp add: is_in_script_region_iff)
  show "\<not> is_python_code (analyze_context source position)" using n by simp
qed

theorem unterminated_tag_not_embedded_witness:
  "str_find ''<script>x = 1'' ''<script'' = Some 0 \<and>
   str_find (drop 0 ''<script>x = 1'') ''</script>'' = None \<and>
   finditer 0 ''<script>x = 1'' = [] \<and>
   \<not> is_in_script_region ''<script>x = 1'' \<lparr>line = 0, character = 8\<rparr> \<and>
   \<not> is_python_code (analyze_context ''<script>x = 1'' \<lparr>line = 0, character = 8\<rparr>) \<and>
   starts_with (drop 18 ''<script>a</script><script>b'') ''<script'' \<and>
   str_find (drop 18 ''<script>a</script><script>b'') ''</script>'' = None \<and>
   int 18 \<le> position_to_offset ''<script>a</script><script>b'' \<lparr>line = 0, character = 26\<rparr> \<and>
   \<not> is_in_script_region ''<script>a</script><script>b'' \<lparr>line = 0, character = 26\<rparr>"
proof -
  have a: "str_find ''<script>x = 1'' ''<script'' = Some 0"
    by (simp add: starts_with_def)
  have b: "str_find (drop 0 ''<script>x = 1'') ''</script>'' = None"
    by (simp add: starts_with_def)
  have c: "starts_with (drop 18 ''<script>a</script><script>b'') ''<script''"
    by (simp add: starts_with_def)
  have d: "str_find (drop 18 ''<script>a</script><script>b'') ''</script>'' = None"
    by (simp add: starts_with_def)
  have e: "int 18 \<le> position_to_offset ''<script>a</script><script>b'' \<lparr>line = 0, character = 26\<rparr>"
    by (simp add: position_to_offset_def slice_to_def newline_def)
  show ?thesis
    using a b c d e
      unterminated_tag_not_embedded
        [where i = 0 and source = "''<script>x = 1''" and position = "\<lparr>line = 0, character = 8\<rparr>"]
      unterminated_tag_not_embedded
        [where i = 18 and source = "''<script>a</script><script>b''"
           and position = "\<lparr>line = 0, character = 26\<rparr>"]
    by simp
qed

text \<open>
  C3 as stated fails for the positions before the unterminated tag: the text
  \<open><script>a</script><script>b\<close> has an opening tag at offset 18 with no closing tag
  after it, and the position of \<open>a\<close> (offset 8) is embedded.
\<close>

theorem unterminated_tag_after_pair_counterexample:
  "starts_with (drop 18 ''<script>a</script><script>b'') ''<script'' \<and>
   str_find (drop 18 ''<script>a</script><script>b'') ''</script>'' = None \<and>
   is_in_script_region ''<script>a</script><script>b'' \<lparr>line = 0, character = 8\<rparr> \<and>
   is_python_code (analyze_context ''<script>a</script><script>b'' \<lparr>line = 0, character = 8\<rparr>)"
  by (simp add: starts_with_def is_in_script_region_def finditer.simps match_here_def
      position_to_offset_def slice_to_def newline_def)

subsection \<open>One tag pair\<close>

lemma finditer_tag:
  assumes pre: "str_find pre ''<script'' = None" and attrs: "CHR ''>'' \<notin> set attrs"
  shows "finditer 0 (pre @ ''<script'' @ attrs @ ''>'' @ rest) =
     (case str_find rest ''</script>'' of
        None \<Rightarrow> []
      | Some k \<Rightarrow>
          \<lparr>start0 = length pre,
            end0 = length pre + 8 + length attrs + k + 9,
            start1 = length pre + 8 + length attrs,
            end1 = length pre + 8 + length attrs + k\<rparr>
          # finditer (length pre + 8 + length attrs + k + 9) (drop (k + 9) rest))"
proof -
  define doc where "doc = pre @ ''<script'' @ attrs @ ''>'' @ rest"
  have s: "search 0 doc =
     (case str_find rest ''</script>'' of
        None \<Rightarrow> None
      | Some k \<Rightarrow>
          Some (\<lparr>start0 = 0 + length pre,
                 end0 = 0 + length pre + 8 + length attrs + k + 9,
                 start1 = 0 + length pre + 8 + length attrs,
                 end1 = 0 + length pre + 8 + length attrs + k\<rparr>,
                drop (k + 9) rest))"
    unfolding doc_def using pre attrs by (rule search_tag)
  have "finditer 0 doc =
     (case str_find rest ''</script>'' of
        None \<Rightarrow> []
      | Some k \<Rightarrow>
          \<lparr>start0 = length pre,
            end0 = length pre + 8 + length attrs + k + 9,
            start1 = length pre + 8 + length attrs,
            end1 = length pre + 8 + length attrs + k\<rparr>
          # finditer (length pre + 8 + length attrs + k + 9) (drop (k + 9) rest))"
    by (subst finditer.simps) (simp add: s split: option.splits)
  then show ?thesis unfolding doc_def .
qed

lemma str_find_closing_after:
  assumes "str_find content ''</script>'' = None"
  shows "str_find (content @ ''</script>'' @ post) ''</script>'' = Some (length content)"
proof -
  have "\<not> starts_with (drop j (content @ ''</script>'' @ post)) ''</script>''"
    if j: "j < length content" for j
  proof -
    have "\<not> starts_with (drop j content) ''</script>''"
      using assms j unfolding str_find_None by simp
    moreover have "starts_with (drop j content @ (''</script>'' @ post)) (CHR ''<'' # ''/script>'')
                   \<longleftrightarrow> starts_with (drop j content) (CHR ''<'' # ''/script>'')"
      using j by (intro starts_with_straddle) simp_all
    ultimately show ?thesis using j by simp
  qed
  moreover have "starts_with (drop (length content) (content @ ''</script>'' @ post)) ''</script>''"
    by (simp add: starts_with_def)
  ultimately show ?thesis unfolding str_find_Some by simp
qed

lemma finditer_from_empty:
  assumes "finditer 0 s = []"
  shows "finditer n s = []"
  using finditer_shift [of 0 n s] assms by simp

lemma single_region_shape:
  assumes "str_find pre ''<script'' = None"
    and "CHR ''>'' \<notin> set attrs"
    and "str_find content ''</script>'' = None"
    and "finditer 0 post = []"
    and "source = pre @ ''<script'' @ attrs @ ''>'' @ content @ ''</script>'' @ post"
    and "s = length pre + 8 + length attrs"
    and "e = s + length content"
  shows "finditer 0 source = [\<lparr>start0 = length pre, end0 = e + 9, start1 = s, end1 = e\<rparr>] \<and>
     starts_with (drop e source) ''</script>'' \<and>
     (is_in_script_region source position \<longleftrightarrow>
        int s \<le> position_to_offset source position \<and>
        position_to_offset source position \<le> int e) \<and>
     (position_to_offset source position = int s - 1 \<longrightarrow>
        \<not> is_in_script_region source position) \<and>
     (position_to_offset source position = int e + 1 \<longrightarrow>
        \<not> is_in_script_region source position)"
proof -
  have k: "str_find (content @ ''</script>'' @ post) ''</script>'' = Some (length content)"
    using assms(3) by (rule str_find_closing_after)
  have "finditer 0 (pre @ ''<script'' @ attrs @ ''>'' @ (content @ ''</script>'' @ post)) =
          \<lparr>start0 = length pre,
            end0 = length pre + 8 + length attrs + length content + 9,
            start1 = length pre + 8 + length attrs,
            end1 = length pre + 8 + length attrs + length content\<rparr>
          # finditer (length pre + 8 + length attrs + length content + 9) post"
    using finditer_tag [OF assms(1,2), of "content @ ''</script>'' @ post"] k by simp
  then have f: "finditer 0 source = [\<lparr>start0 = length pre, end0 = e + 9, start1 = s, end1 = e\<rparr>]"
    using finditer_from_empty [OF assms(4)] assms(5,6,7) by simp
  have m: "\<lparr>start0 = length pre, end0 = e + 9, start1 = s, end1 = e\<rparr> \<in> set (finditer 0 source)"
    using f by simp
  have c: "starts_with (drop e source) ''</script>''"
    using finditer_closing(1) [OF m] by simp
  have i: "is_in_script_region source position \<longleftrightarrow>
        int s \<le> position_to_offset source position \<and>
        position_to_offset source position \<le> int e"
    using f by (simp add: is_in_script_region_iff)
  show ?thesis using f c i by simp
qed

text \<open>
  C2 (as amended). Take a document that holds one tag pair: no opening tag starts before
  it, its opening tag carries any attributes without \<open>>\<close>, its content holds no closing tag
  and no region follows it. With the content span \<open>[s, e)\<close>, the scan yields exactly this
  region, and \<open>is_in_script_region\<close> is true exactly for the offsets \<open>o\<close> with
  \<open>s \<le> o \<le> e\<close>. So it is false at \<open>s - 1\<close> and at \<open>e + 1\<close> and at every other offset of the
  tag markup, and true at \<open>e\<close>, the offset of the first character of the closing tag. The
  same holds for every document in which the scan finds exactly one match.
\<close>

theorem single_region_classification:
  "(str_find pre ''<script'' = None \<and> CHR ''>'' \<notin> set attrs \<and>
    str_find content ''</script>'' = None \<and> finditer 0 post = [] \<and>
    source = pre @ ''<script'' @ attrs @ ''>'' @ content @ ''</script>'' @ post \<and>
    s = length pre + 8 + length attrs \<and> e = s + length content \<longrightarrow>
      finditer 0 source = [\<lparr>start0 = length pre, end0 = e + 9, start1 = s, end1 = e\<rparr>] \<and>
      starts_with (drop e source) ''</script>'' \<and>
      (is_in_script_region source position \<longleftrightarrow>
         int s \<le> position_to_offset source position \<and>
         position_to_offset source position \<le> int e) \<and>
      (position_to_offset source position = int s - 1 \<longrightarrow>
         \<not> is_in_script_region source position) \<and>
      (position_to_offset source position = int e + 1 \<longrightarrow>
         \<not> is_in_script_region source position)) \<and>
   (finditer 0 doc = [m] \<longrightarrow>
      starts_with (drop (start0 m) doc) ''<script'' \<and>
      start0 m + 8 \<le> start1 m \<and>
      starts_with (drop (end1 m) doc) ''</script>'' \<and>
      (is_in_script_region doc position \<longleftrightarrow>
         int (start1 m) \<le> position_to_offset doc position \<and>
         position_to_offset doc position \<le> int (end1 m)))"
proof (intro conjI impI)
  assume a: "str_find pre ''<script'' = None \<and> CHR ''>'' \<notin> set attrs \<and>
    str_find content ''</script>'' = None \<and> finditer 0 post = [] \<and>
    source = pre @ ''<script'' @ attrs @ ''>'' @ content @ ''</script>'' @ post \<and>
    s = length pre + 8 + length attrs \<and> e = s + length content"
  note sh = single_region_shape [of pre attrs content post source s e position]
  show "finditer 0 source = [\<lparr>start0 = length pre, end0 = e + 9, start1 = s, end1 = e\<rparr>]"
    using a sh by blast
  show "starts_with (drop e source) ''</script>''" using a sh by blast
  show "is_in_script_region source position \<longleftrightarrow>
         int s \<le> position_to_offset source position \<and>
         position_to_offset source position \<le> int e"
    using a sh by blast
  show "\<not> is_in_script_region source position"
    if "position_to_offset source position = int s - 1" using that a sh by blast
  show "\<not> is_in_script_region source position"
    if "position_to_offset source position = int e + 1" using that a sh by blast
next
  assume f: "finditer 0 doc = [m]"
  then have m: "m \<in> set (finditer 0 doc)" by simp
  show "starts_with (drop (start0 m) doc) ''<script''" using m by (rule finditer_opening)
  show "start0 m + 8 \<le> start1 m" using m by (rule finditer_bounds(5))
  show "starts_with (drop (end1 m) doc) ''</script>''" using m by (rule finditer_closing(1))
  show "is_in_script_region doc position \<longleftrightarrow>
         int (start1 m) \<le> position_to_offset doc position \<and>
         position_to_offset doc position \<le> int (end1 m)"
    using f by (simp add: is_in_script_region_iff)
qed

theorem single_region_classification_witness:
  "finditer 0 ''<script>x</script>'' = [\<lparr>start0 = 0, end0 = 18, start1 = 8, end1 = 9\<rparr>] \<and>
   is_in_script_region ''<script>x</script>'' \<lparr>line = 0, character = 8\<rparr> \<and>
   is_in_script_region ''<script>x</script>'' \<lparr>line = 0, character = 9\<rparr> \<and>
   \<not> is_in_script_region ''<script>x</script>'' \<lparr>line = 0, character = 7\<rparr> \<and>
   \<not> is_in_script_region ''<script>x</script>'' \<lparr>line = 0, character = 10\<rparr>"
proof -
  have a: "str_find [] ''<script'' = None \<and> CHR ''>'' \<notin> set [] \<and>
    str_find ''x'' ''</script>'' = None \<and> finditer 0 [] = [] \<and>
    ''<script>x</script>'' = [] @ ''<script'' @ [] @ ''>'' @ ''x'' @ ''</script>'' @ [] \<and>
    (8::nat) = length ([]::string) + 8 + length ([]::string) \<and> (9::nat) = 8 + length ''x''"
    by (simp add: starts_with_def finditer.simps match_here_def)
  have o: "position_to_offset ''<script>x</script>'' \<lparr>line = 0, character = c\<rparr> = c" for c
    by (simp add: position_to_offset_def slice_to_def newline_def)
  note t = single_region_classification
    [where pre = "[]" and attrs = "[]" and content = "''x''" and post = "[]"
       and source = "''<script>x</script>''" and s = 8 and e = 9, THEN conjunct1, THEN mp, OF a]
  have f: "finditer 0 ''<script>x</script>'' = [\<lparr>start0 = 0, end0 = 18, start1 = 8, end1 = 9\<rparr>]"
    using t [of "\<lparr>line = 0, character = 8\<rparr>"] by simp
  show ?thesis
    using f t [of "\<lparr>line = 0, character = 8\<rparr>"] t [of "\<lparr>line = 0, character = 9\<rparr>"]
      t [of "\<lparr>line = 0, character = 7\<rparr>"] t [of "\<lparr>line = 0, character = 10\<rparr>"]
    by (simp add: o)
qed

text \<open>
  C2 as stated fails at the first character of the closing tag: in \<open><script>x</script>\<close>
  the content span is \<open>[8, 9)\<close>, the closing tag starts at offset 9, and offset 9 is
  classified as inside.
\<close>

theorem closing_tag_first_character_inside:
  "finditer 0 ''<script>x</script>'' = [\<lparr>start0 = 0, end0 = 18, start1 = 8, end1 = 9\<rparr>] \<and>
   drop 9 ''<script>x</script>'' = ''</script>'' \<and>
   position_to_offset ''<script>x</script>'' \<lparr>line = 0, character = 9\<rparr> = 9 \<and>
   is_in_script_region ''<script>x</script>'' \<lparr>line = 0, character = 9\<rparr>"
  by (simp add: is_in_script_region_def finditer.simps match_here_def
      position_to_offset_def slice_to_def newline_def)

lemma finditer_tag_start:
  assumes pre: "str_find pre ''<script'' = None" and attrs: "CHR ''>'' \<notin> set attrs"
    and m: "m \<in> set (finditer 0 (pre @ ''<script'' @ attrs @ ''>'' @ rest))"
  shows "length pre + 8 + length attrs \<le> start1 m"
proof (cases "str_find rest ''</script>''")
  case None
  then show ?thesis using m finditer_tag [OF pre attrs, of rest] by simp
next
  case (Some k)
  let ?m0 = "\<lparr>start0 = length pre,
            end0 = length pre + 8 + length attrs + k + 9,
            start1 = length pre + 8 + length attrs,
            end1 = length pre + 8 + length attrs + k\<rparr>"
  have "m = ?m0 \<or> m \<in> set (finditer (length pre + 8 + length attrs + k + 9) (drop (k + 9) rest))"
    using m finditer_tag [OF pre attrs, of rest] Some by simp
  then show ?thesis
  proof
    assume "m = ?m0"
    then show ?thesis by simp
  next
    assume "m \<in> set (finditer (length pre + 8 + length attrs + k + 9) (drop (k + 9) rest))"
    then have "length pre + 8 + length attrs + k + 9 + 8 \<le> start1 m"
      by (rule finditer_bounds(1))
    then show ?thesis by simp
  qed
qed

lemma empty_region_shape:
  assumes "str_find pre ''<script'' = None"
    and "CHR ''>'' \<notin> set attrs"
    and "source = pre @ ''<script'' @ attrs @ ''>'' @ ''</script>'' @ post"
    and "s = length pre + 8 + length attrs"
  shows "(\<exists>ms. finditer 0 source =
            \<lparr>start0 = length pre, end0 = s + 9, start1 = s, end1 = s\<rparr> # ms) \<and>
     (position_to_offset source position = int s \<longrightarrow> is_in_script_region source position) \<and>
     (position_to_offset source position \<le> int s + 9 \<longrightarrow>
        (is_in_script_region source position \<longleftrightarrow> position_to_offset source position = int s))"
proof -
  let ?m0 = "\<lparr>start0 = length pre, end0 = s + 9, start1 = s, end1 = s\<rparr>"
  let ?tail = "finditer (s + 9) post"
  have k: "str_find (''</script>'' @ post) ''</script>'' = Some 0"
    by (simp add: starts_with_def)
  have "finditer 0 (pre @ ''<script'' @ attrs @ ''>'' @ (''</script>'' @ post)) =
          \<lparr>start0 = length pre,
            end0 = length pre + 8 + length attrs + 0 + 9,
            start1 = length pre + 8 + length attrs,
            end1 = length pre + 8 + length attrs + 0\<rparr>
          # finditer (length pre + 8 + length attrs + 0 + 9) (drop (0 + 9) (''</script>'' @ post))"
    using finditer_tag [OF assms(1,2), of "''</script>'' @ post"] k by (simp only: option.case)
  then have f: "finditer 0 source = ?m0 # ?tail"
    using assms(3,4) by simp
  have tail: "s + 9 < start1 m" if "m \<in> set ?tail" for m
    using finditer_bounds(1) [OF that] by simp
  have at: "is_in_script_region source position"
    if "position_to_offset source position = int s"
    using that f by (simp add: is_in_script_region_iff)
  have only: "position_to_offset source position = int s"
    if le: "position_to_offset source position \<le> int s + 9"
      and inside: "is_in_script_region source position"
  proof -
    have "\<exists>m\<in>set (finditer 0 source).
            int (start1 m) \<le> position_to_offset source position \<and>
            position_to_offset source position \<le> int (end1 m)"
      using inside unfolding is_in_script_region_iff .
    then obtain m where m: "m \<in> set (finditer 0 source)"
      "int (start1 m) \<le> position_to_offset source position"
      "position_to_offset source position \<le> int (end1 m)"
      by blast
    have "m \<notin> set ?tail" using tail [of m] m(2) le by auto
    then have "m = ?m0" using m(1) f by simp
    then show ?thesis using m(2,3) by simp
  qed
  show ?thesis using f at only by blast
qed

text \<open>
  C10. For a document with a tag pair of empty content (no opening tag starts before it),
  the scan yields a region whose span is empty, \<open>s = e\<close>; the offset \<open>s\<close> is classified
  as inside, and it is the only inside offset up to the end of the closing tag. More
  generally, for every match of the scan whose group 1 is empty, the offset of its start
  is inside.
\<close>

theorem empty_region_boundary_inside:
  "(str_find pre ''<script'' = None \<and> CHR ''>'' \<notin> set attrs \<and>
    source = pre @ ''<script'' @ attrs @ ''>'' @ ''</script>'' @ post \<and>
    s = length pre + 8 + length attrs \<longrightarrow>
      (\<exists>ms. finditer 0 source =
            \<lparr>start0 = length pre, end0 = s + 9, start1 = s, end1 = s\<rparr> # ms) \<and>
      (position_to_offset source position = int s \<longrightarrow> is_in_script_region source position) \<and>
      (position_to_offset source position \<le> int s + 9 \<longrightarrow>
         (is_in_script_region source position \<longleftrightarrow>
            position_to_offset source position = int s))) \<and>
   (m \<in> set (finditer 0 doc) \<and> start1 m = end1 m \<and>
    position_to_offset doc position = int (start1 m) \<longrightarrow>
      is_in_script_region doc position)"
proof (intro conjI impI)
  assume a: "str_find pre ''<script'' = None \<and> CHR ''>'' \<notin> set attrs \<and>
    source = pre @ ''<script'' @ attrs @ ''>'' @ ''</script>'' @ post \<and>
    s = length pre + 8 + length attrs"
  note sh = empty_region_shape [of pre attrs source post s position]
  show "\<exists>ms. finditer 0 source =
            \<lparr>start0 = length pre, end0 = s + 9, start1 = s, end1 = s\<rparr> # ms"
    using a sh by blast
  show "is_in_script_region source position"
    if "position_to_offset source position = int s" using that a sh by blast
  show "is_in_script_region source position \<longleftrightarrow> position_to_offset source position = int s"
    if "position_to_offset source position \<le> int s + 9" using that a sh by blast
next
  assume "m \<in> set (finditer 0 doc) \<and> start1 m = end1 m \<and>
    position_to_offset doc position = int (start1 m)"
  then have "m \<in> set (finditer 0 doc)"
    and "int (start1 m) \<le> position_to_offset doc position \<and>
         position_to_offset doc position \<le> int (end1 m)"
    by simp_all
  then show "is_in_script_region doc position"
    unfolding is_in_script_region_iff by (rule bexI [rotated])
qed

theorem empty_region_boundary_inside_witness:
  "is_in_script_region ''<script></script>'' \<lparr>line = 0, character = 8\<rparr> \<and>
   \<not> is_in_script_region ''<script></script>'' \<lparr>line = 0, character = 7\<rparr> \<and>
   \<not> is_in_script_region ''<script></script>'' \<lparr>line = 0, character = 9\<rparr>"
proof -
  have a: "str_find [] ''<script'' = None \<and> CHR ''>'' \<notin> set [] \<and>
    ''<script></script>'' = [] @ ''<script'' @ [] @ ''>'' @ ''</script>'' @ [] \<and>
    (8::nat) = length ([]::string) + 8 + length ([]::string)"
    by simp
  have o: "position_to_offset ''<script></script>'' \<lparr>line = 0, character = c\<rparr> = c" for c
    by (simp add: position_to_offset_def slice_to_def newline_def)
  note t = empty_region_boundary_inside
    [where pre = "[]" and attrs = "[]" and post = "[]"
       and source = "''<script></script>''" and s = 8, THEN conjunct1, THEN mp, OF a]
  show ?thesis
    using t [of "\<lparr>line = 0, character = 8\<rparr>"] t [of "\<lparr>line = 0, character = 7\<rparr>"]
      t [of "\<lparr>line = 0, character = 9\<rparr>"]
    by (simp add: o)
qed

subsection \<open>Attributes and letter case\<close>

text \<open>The region of a match: the span of its group 1.\<close>

definition region :: "Match \<Rightarrow> nat \<times> nat" where
  "region m = (start1 m, end1 m)"

lemma region_shift: "region (shift n m) = (fst (region m) + n, snd (region m) + n)"
  by (simp add: region_def shift_def)

lemma is_in_script_region_regions:
  "is_in_script_region source position \<longleftrightarrow>
     (\<exists>r\<in>set (map region (finditer 0 source)).
        int (fst r) \<le> position_to_offset source position \<and>
        position_to_offset source position \<le> int (snd r))"
  by (simp add: is_in_script_region_iff region_def)

lemma regions_with_attributes:
  assumes pre: "str_find pre ''<script'' = None" and attrs: "CHR ''>'' \<notin> set attrs"
  shows "map region (finditer 0 (pre @ ''<script'' @ attrs @ ''>'' @ rest)) =
         map (\<lambda>(s, e). (s + length attrs, e + length attrs))
           (map region (finditer 0 (pre @ ''<script>'' @ rest)))"
proof -
  have e: "CHR ''>'' \<notin> set []" by simp
  have p: "pre @ ''<script>'' @ rest = pre @ ''<script'' @ [] @ ''>'' @ rest" by simp
  show ?thesis
  proof (cases "str_find rest ''</script>''")
    case None
    then show ?thesis
      using finditer_tag [OF pre attrs, of rest] finditer_tag [OF pre e, of rest]
      by (simp only: p option.case list.map)
  next
    case (Some k)
    define E where "E = length pre + 8 + k + 9"
    define tail where "tail = finditer E (drop (k + 9) rest)"
    have a: "finditer 0 (pre @ ''<script'' @ attrs @ ''>'' @ rest) =
          \<lparr>start0 = length pre,
            end0 = length pre + 8 + length attrs + k + 9,
            start1 = length pre + 8 + length attrs,
            end1 = length pre + 8 + length attrs + k\<rparr>
          # finditer (E + length attrs) (drop (k + 9) rest)"
    proof -
      have "length pre + 8 + length attrs + k + 9 = E + length attrs" by (simp add: E_def)
      then show ?thesis using finditer_tag [OF pre attrs, of rest] Some
        by (simp only: option.case)
    qed
    have b: "finditer 0 (pre @ ''<script>'' @ rest) =
          \<lparr>start0 = length pre,
            end0 = length pre + 8 + k + 9,
            start1 = length pre + 8,
            end1 = length pre + 8 + k\<rparr>
          # tail"
      using finditer_tag [OF pre e, of rest] Some by (simp add: E_def tail_def)
    have t: "finditer (E + length attrs) (drop (k + 9) rest) = map (shift (length attrs)) tail"
      unfolding tail_def by (rule finditer_shift)
    have "map region (map (shift (length attrs)) tail) =
            map (\<lambda>(s, e). (s + length attrs, e + length attrs)) (map region tail)"
      by (simp add: region_shift case_prod_beta)
    then show ?thesis unfolding a b t by (simp add: region_def)
  qed
qed

lemma no_opening_no_region:
  assumes "str_find source ''<script'' = None"
  shows "finditer 0 source = []"
proof (rule ccontr)
  assume "finditer 0 source \<noteq> []"
  then obtain m where m: "m \<in> set (finditer 0 source)" by (cases "finditer 0 source") auto
  have o: "starts_with (drop (start0 m) source) ''<script''" using m by (rule finditer_opening)
  then have "drop (start0 m) source \<noteq> []" by auto
  then have "start0 m \<le> length source" by simp
  then show False using o assms unfolding str_find_None by blast
qed

lemma no_closing_no_region:
  assumes "str_find source ''</script>'' = None"
  shows "finditer 0 source = []"
proof (rule ccontr)
  assume "finditer 0 source \<noteq> []"
  then obtain m where m: "m \<in> set (finditer 0 source)" by (cases "finditer 0 source") auto
  show False
    using finditer_closing [OF m] assms unfolding str_find_None by blast
qed

subsection \<open>Tag pairs before a tag\<close>

text \<open>A text made of complete tag pairs: each pair is the text before its opening tag,
  the attributes of the opening tag and the content.\<close>

fun pairs_text :: "(string \<times> string \<times> string) list \<Rightarrow> string" where
  "pairs_text [] = []"
| "pairs_text ((gap, attrs, content) # ps) =
     gap @ ''<script'' @ attrs @ ''>'' @ content @ ''</script>'' @ pairs_text ps"

text \<open>No opening tag starts in the text before the pair's opening tag, the attributes hold
  no \<open>>\<close>, and the content holds no closing tag.\<close>

definition clean_pair :: "string \<times> string \<times> string \<Rightarrow> bool" where
  "clean_pair t =
     (case t of (gap, attrs, content) \<Rightarrow>
        str_find gap ''<script'' = None \<and> CHR ''>'' \<notin> set attrs \<and>
        str_find content ''</script>'' = None)"

text \<open>The matches of such a text, when it starts at offset \<open>p\<close>.\<close>

fun pair_matches :: "nat \<Rightarrow> (string \<times> string \<times> string) list \<Rightarrow> Match list" where
  "pair_matches p [] = []"
| "pair_matches p ((gap, attrs, content) # ps) =
     \<lparr>start0 = p + length gap,
       end0 = p + length gap + 8 + length attrs + length content + 9,
       start1 = p + length gap + 8 + length attrs,
       end1 = p + length gap + 8 + length attrs + length content\<rparr>
     # pair_matches (p + length gap + 8 + length attrs + length content + 9) ps"

lemma finditer_pair:
  assumes gap: "str_find gap ''<script'' = None" and attrs: "CHR ''>'' \<notin> set attrs"
    and content: "str_find content ''</script>'' = None"
  shows "finditer p (gap @ ''<script'' @ attrs @ ''>'' @ content @ ''</script>'' @ z) =
     \<lparr>start0 = p + length gap,
       end0 = p + length gap + 8 + length attrs + length content + 9,
       start1 = p + length gap + 8 + length attrs,
       end1 = p + length gap + 8 + length attrs + length content\<rparr>
     # finditer (p + length gap + 8 + length attrs + length content + 9) z"
proof -
  define doc where "doc = gap @ ''<script'' @ attrs @ ''>'' @ (content @ ''</script>'' @ z)"
  define E where "E = length gap + 8 + length attrs + length content + 9"
  have k: "str_find (content @ ''</script>'' @ z) ''</script>'' = Some (length content)"
    using content by (rule str_find_closing_after)
  have "finditer 0 doc =
          \<lparr>start0 = length gap,
            end0 = length gap + 8 + length attrs + length content + 9,
            start1 = length gap + 8 + length attrs,
            end1 = length gap + 8 + length attrs + length content\<rparr>
          # finditer (length gap + 8 + length attrs + length content + 9)
              (drop (length content + 9) (content @ ''</script>'' @ z))"
    unfolding doc_def using finditer_tag [OF gap attrs, of "content @ ''</script>'' @ z"] k
    by (simp only: option.case)
  moreover have "drop (length content + 9) (content @ ''</script>'' @ z) = z" by simp
  ultimately have f0: "finditer 0 doc =
          \<lparr>start0 = length gap, end0 = E, start1 = length gap + 8 + length attrs,
            end1 = length gap + 8 + length attrs + length content\<rparr>
          # finditer E z"
    by (simp only: E_def)
  have "finditer p doc = map (shift p) (finditer 0 doc)"
    using finditer_shift [of 0 p doc] by simp
  also have "\<dots> = shift p \<lparr>start0 = length gap, end0 = E, start1 = length gap + 8 + length attrs,
            end1 = length gap + 8 + length attrs + length content\<rparr>
          # map (shift p) (finditer E z)"
    by (simp only: f0 list.map)
  also have "map (shift p) (finditer E z) = finditer (E + p) z"
    by (rule finditer_shift [symmetric])
  finally have "finditer p doc =
     \<lparr>start0 = p + length gap, end0 = p + E, start1 = p + length gap + 8 + length attrs,
       end1 = p + length gap + 8 + length attrs + length content\<rparr>
     # finditer (p + E) z"
    by (simp add: shift_def add.commute add.left_commute)
  then have "finditer p doc =
     \<lparr>start0 = p + length gap,
       end0 = p + length gap + 8 + length attrs + length content + 9,
       start1 = p + length gap + 8 + length attrs,
       end1 = p + length gap + 8 + length attrs + length content\<rparr>
     # finditer (p + length gap + 8 + length attrs + length content + 9) z"
    by (simp add: E_def add.assoc)
  then show ?thesis by (simp add: doc_def)
qed

lemma finditer_pairs:
  assumes "list_all clean_pair ps"
  shows "finditer p (pairs_text ps @ z) =
           pair_matches p ps @ finditer (p + length (pairs_text ps)) z"
  using assms
proof (induction ps arbitrary: p)
  case Nil
  then show ?case by simp
next
  case (Cons t ps)
  obtain gap attrs content where t: "t = (gap, attrs, content)" by (cases t)
  have c: "str_find gap ''<script'' = None" "CHR ''>'' \<notin> set attrs"
    "str_find content ''</script>'' = None"
    using Cons.prems t by (simp_all add: clean_pair_def)
  have rest: "list_all clean_pair ps" using Cons.prems by simp
  define E where "E = p + length gap + 8 + length attrs + length content + 9"
  have ih: "finditer E (pairs_text ps @ z) =
              pair_matches E ps @ finditer (E + length (pairs_text ps)) z"
    using Cons.IH [OF rest] .
  have l: "E + length (pairs_text ps) = p + length (pairs_text (t # ps))"
    by (simp add: E_def t)
  have "finditer p (gap @ ''<script'' @ attrs @ ''>'' @ content @ ''</script>'' @ (pairs_text ps @ z)) =
     \<lparr>start0 = p + length gap,
       end0 = p + length gap + 8 + length attrs + length content + 9,
       start1 = p + length gap + 8 + length attrs,
       end1 = p + length gap + 8 + length attrs + length content\<rparr>
     # finditer E (pairs_text ps @ z)"
    unfolding E_def using c by (rule finditer_pair)
  then have "finditer p (pairs_text (t # ps) @ z) =
     \<lparr>start0 = p + length gap,
       end0 = p + length gap + 8 + length attrs + length content + 9,
       start1 = p + length gap + 8 + length attrs,
       end1 = p + length gap + 8 + length attrs + length content\<rparr>
     # finditer E (pairs_text ps @ z)"
    by (simp add: t)
  also have "\<dots> = pair_matches p (t # ps) @ finditer (E + length (pairs_text ps)) z"
    unfolding ih by (simp add: t E_def)
  finally show ?case unfolding l .
qed

lemma pair_matches_end:
  assumes "m \<in> set (pair_matches p ps)"
  shows "end1 m < p + length (pairs_text ps)"
  using assms
proof (induction ps arbitrary: p)
  case Nil
  then show ?case by simp
next
  case (Cons t ps)
  obtain gap attrs content where t: "t = (gap, attrs, content)" by (cases t)
  define E where "E = p + length gap + 8 + length attrs + length content + 9"
  have "m = \<lparr>start0 = p + length gap,
       end0 = p + length gap + 8 + length attrs + length content + 9,
       start1 = p + length gap + 8 + length attrs,
       end1 = p + length gap + 8 + length attrs + length content\<rparr> \<or>
     m \<in> set (pair_matches E ps)"
    using Cons.prems by (simp add: t E_def)
  then show ?case
  proof
    assume "m = \<lparr>start0 = p + length gap,
       end0 = p + length gap + 8 + length attrs + length content + 9,
       start1 = p + length gap + 8 + length attrs,
       end1 = p + length gap + 8 + length attrs + length content\<rparr>"
    then show ?thesis by (simp add: t)
  next
    assume "m \<in> set (pair_matches E ps)"
    then have "end1 m < E + length (pairs_text ps)" by (rule Cons.IH)
    then show ?thesis by (simp add: t E_def)
  qed
qed

lemma map_region_shift:
  "map region (map (shift n) ms) = map (\<lambda>(s, e). (s + n, e + n)) (map region ms)"
  by (simp add: region_shift case_prod_beta)

lemma bex_append_map:
  "(\<exists>r\<in>set (xs @ map f ys). P r) \<longleftrightarrow> (\<exists>r\<in>set xs. P r) \<or> (\<exists>r\<in>set ys. P (f r))"
  by auto

lemma regions_of_later_tag:
  assumes ps: "list_all clean_pair ps"
    and gap: "str_find gap ''<script'' = None"
    and attrs: "CHR ''>'' \<notin> set attrs"
    and pre: "pre = pairs_text ps @ gap"
    and plain: "plain = pre @ ''<script>'' @ rest"
    and tagged: "tagged = pre @ ''<script'' @ attrs @ ''>'' @ rest"
  shows "\<exists>before after.
           map region (finditer 0 plain) = before @ after \<and>
           map region (finditer 0 tagged) =
             before @ map (\<lambda>(s, e). (s + length attrs, e + length attrs)) after \<and>
           (\<forall>r\<in>set before. snd r < length pre) \<and>
           (\<forall>r\<in>set after. length pre + 8 \<le> fst r)"
proof -
  define L where "L = length (pairs_text ps)"
  define zp where "zp = gap @ ''<script>'' @ rest"
  define zt where "zt = gap @ ''<script'' @ attrs @ ''>'' @ rest"
  define before where "before = map region (pair_matches 0 ps)"
  define after where "after = map region (finditer L zp)"
  have e: "CHR ''>'' \<notin> set []" by simp
  have zp': "zp = gap @ ''<script'' @ [] @ ''>'' @ rest" by (simp add: zp_def)
  have p: "plain = pairs_text ps @ zp" by (simp add: plain pre zp_def)
  have t: "tagged = pairs_text ps @ zt" by (simp add: tagged pre zt_def)
  have fp: "finditer 0 plain = pair_matches 0 ps @ finditer L zp"
    unfolding p L_def using finditer_pairs [OF ps, of 0 zp] by simp
  have ft: "finditer 0 tagged = pair_matches 0 ps @ finditer L zt"
    unfolding t L_def using finditer_pairs [OF ps, of 0 zt] by simp
  have sp: "finditer L zp = map (shift L) (finditer 0 zp)"
    using finditer_shift [of 0 L zp] by simp
  have st: "finditer L zt = map (shift L) (finditer 0 zt)"
    using finditer_shift [of 0 L zt] by simp
  have r: "map region (finditer 0 zt) =
             map (\<lambda>(s, e). (s + length attrs, e + length attrs)) (map region (finditer 0 zp))"
    unfolding zt_def zp_def using gap attrs by (rule regions_with_attributes)
  have "map region (finditer L zt) =
          map (\<lambda>(s, e). (s + L, e + L))
            (map (\<lambda>(s, e). (s + length attrs, e + length attrs)) (map region (finditer 0 zp)))"
    unfolding st map_region_shift r ..
  also have "\<dots> = map (\<lambda>(s, e). (s + length attrs, e + length attrs))
            (map (\<lambda>(s, e). (s + L, e + L)) (map region (finditer 0 zp)))"
    by (simp add: case_prod_beta add.commute add.left_commute)
  also have "map (\<lambda>(s, e). (s + L, e + L)) (map region (finditer 0 zp)) = after"
    unfolding after_def sp map_region_shift ..
  finally have at: "map region (finditer L zt) =
     map (\<lambda>(s, e). (s + length attrs, e + length attrs)) after" .
  have 1: "map region (finditer 0 plain) = before @ after"
    by (simp add: fp before_def after_def)
  have 2: "map region (finditer 0 tagged) =
             before @ map (\<lambda>(s, e). (s + length attrs, e + length attrs)) after"
    by (simp add: ft before_def at)
  have 3: "\<forall>r\<in>set before. snd r < length pre"
  proof
    fix r assume "r \<in> set before"
    then obtain m where m: "m \<in> set (pair_matches 0 ps)" "r = region m"
      unfolding before_def by auto
    have "end1 m < 0 + length (pairs_text ps)" using m(1) by (rule pair_matches_end)
    then show "snd r < length pre" using m(2) by (simp add: region_def pre)
  qed
  have 4: "\<forall>r\<in>set after. length pre + 8 \<le> fst r"
  proof
    fix r assume "r \<in> set after"
    then obtain m where m: "m \<in> set (finditer 0 zp)" "r = region (shift L m)"
      unfolding after_def sp by auto
    have "length gap + 8 + length ([] :: string) \<le> start1 m"
      using finditer_tag_start [OF gap e] m(1) unfolding zp' by blast
    then show "length pre + 8 \<le> fst r"
      using m(2) by (simp add: region_def shift_def pre L_def)
  qed
  show ?thesis using 1 2 3 4 by blast
qed

text \<open>
  C4 (as amended). Region detection is attribute-insensitive and case-sensitive. Take any
  opening tag of a document, the first or a later one: before it stand complete tag pairs
  (with any attributes of their own) and text in which no opening tag starts. When this
  tag carries attributes (any characters but \<open>>\<close>), the document has the regions of its
  attribute-free spelling: those before the tag at the same offsets, those from the tag
  on moved by the length of the attributes. The classification is the same at every
  offset, moved likewise from the end of the opening tag on, and the offsets on the
  opening tag are outside. Only the lowercase spelling is a tag: a text without
  \<open><script\<close> or without \<open></script>\<close> in lowercase has no region.
\<close>

theorem attributes_shift_regions_case_matters:
  "(list_all clean_pair ps \<and> str_find gap ''<script'' = None \<and> CHR ''>'' \<notin> set attrs \<and>
    pre = pairs_text ps @ gap \<and>
    plain = pre @ ''<script>'' @ rest \<and> tagged = pre @ ''<script'' @ attrs @ ''>'' @ rest \<longrightarrow>
      (\<exists>before after.
         map region (finditer 0 plain) = before @ after \<and>
         map region (finditer 0 tagged) =
           before @ map (\<lambda>(s, e). (s + length attrs, e + length attrs)) after \<and>
         (\<forall>r\<in>set before. snd r < length pre) \<and>
         (\<forall>r\<in>set after. length pre + 8 \<le> fst r)) \<and>
      (position_to_offset tagged q = position_to_offset plain p + int (length attrs) \<and>
       int (length pre + 8) \<le> position_to_offset plain p \<longrightarrow>
         is_in_script_region tagged q = is_in_script_region plain p) \<and>
      (position_to_offset tagged q = position_to_offset plain p \<and>
       position_to_offset plain p < int (length pre + 8) \<longrightarrow>
         is_in_script_region tagged q = is_in_script_region plain p) \<and>
      (int (length pre) \<le> position_to_offset tagged q \<and>
       position_to_offset tagged q < int (length pre + 8 + length attrs) \<longrightarrow>
         \<not> is_in_script_region tagged q)) \<and>
   (str_find source ''<script'' = None \<or> str_find source ''</script>'' = None \<longrightarrow>
      finditer 0 source = [] \<and> \<not> is_in_script_region source p)"
proof (intro conjI impI)
  assume a: "list_all clean_pair ps \<and> str_find gap ''<script'' = None \<and>
    CHR ''>'' \<notin> set attrs \<and> pre = pairs_text ps @ gap \<and>
    plain = pre @ ''<script>'' @ rest \<and> tagged = pre @ ''<script'' @ attrs @ ''>'' @ rest"
  then obtain before after where ba:
    "map region (finditer 0 plain) = before @ after"
    "map region (finditer 0 tagged) =
       before @ map (\<lambda>(s, e). (s + length attrs, e + length attrs)) after"
    "\<forall>r\<in>set before. snd r < length pre"
    "\<forall>r\<in>set after. length pre + 8 \<le> fst r"
    using regions_of_later_tag [of ps gap attrs pre plain rest tagged] by blast
  show "\<exists>before after.
         map region (finditer 0 plain) = before @ after \<and>
         map region (finditer 0 tagged) =
           before @ map (\<lambda>(s, e). (s + length attrs, e + length attrs)) after \<and>
         (\<forall>r\<in>set before. snd r < length pre) \<and>
         (\<forall>r\<in>set after. length pre + 8 \<le> fst r)"
    using ba by blast
  define n where "n = length attrs"
  have inp: "is_in_script_region plain p \<longleftrightarrow>
      (\<exists>r\<in>set before \<union> set after. int (fst r) \<le> position_to_offset plain p \<and>
          position_to_offset plain p \<le> int (snd r))"
    unfolding is_in_script_region_regions ba(1) by simp
  have inq: "is_in_script_region tagged q \<longleftrightarrow>
      (\<exists>r\<in>set before. int (fst r) \<le> position_to_offset tagged q \<and>
          position_to_offset tagged q \<le> int (snd r)) \<or>
      (\<exists>r\<in>set after. int (fst r + n) \<le> position_to_offset tagged q \<and>
          position_to_offset tagged q \<le> int (snd r + n))"
    unfolding is_in_script_region_regions ba(2) bex_append_map n_def
    by (simp add: case_prod_beta)
  {
    assume o: "position_to_offset tagged q = position_to_offset plain p + int (length attrs) \<and>
       int (length pre + 8) \<le> position_to_offset plain p"
    have nb: "\<not> (int (fst r) \<le> x \<and> x \<le> int (snd r))"
      if "r \<in> set before" "int (length pre) \<le> x" for r x
      using ba(3) that by fastforce
    have "is_in_script_region tagged q \<longleftrightarrow>
      (\<exists>r\<in>set after. int (fst r + n) \<le> position_to_offset tagged q \<and>
          position_to_offset tagged q \<le> int (snd r + n))"
      unfolding inq using nb [of _ "position_to_offset tagged q"] o by auto
    also have "\<dots> \<longleftrightarrow> (\<exists>r\<in>set after. int (fst r) \<le> position_to_offset plain p \<and>
          position_to_offset plain p \<le> int (snd r))"
      using o by (simp add: n_def)
    also have "\<dots> \<longleftrightarrow> is_in_script_region plain p"
      unfolding inp using nb [of _ "position_to_offset plain p"] o by auto
    finally show "is_in_script_region tagged q = is_in_script_region plain p" .
  }
  {
    assume o: "position_to_offset tagged q = position_to_offset plain p \<and>
       position_to_offset plain p < int (length pre + 8)"
    have na: "\<not> (int (fst r + k) \<le> x \<and> x \<le> int (snd r + k))"
      if "r \<in> set after" "x < int (length pre + 8)" for r x k
      using ba(4) that by fastforce
    have "is_in_script_region tagged q \<longleftrightarrow>
      (\<exists>r\<in>set before. int (fst r) \<le> position_to_offset tagged q \<and>
          position_to_offset tagged q \<le> int (snd r))"
      unfolding inq using na [of _ "position_to_offset tagged q" n] o by auto
    also have "\<dots> \<longleftrightarrow> is_in_script_region plain p"
      unfolding inp using na [of _ "position_to_offset plain p" 0] o by auto
    finally show "is_in_script_region tagged q = is_in_script_region plain p" .
  }
  {
    assume o: "int (length pre) \<le> position_to_offset tagged q \<and>
       position_to_offset tagged q < int (length pre + 8 + length attrs)"
    have "\<not> (int (fst r) \<le> position_to_offset tagged q \<and>
              position_to_offset tagged q \<le> int (snd r))" if "r \<in> set before" for r
      using ba(3) that o by fastforce
    moreover have "\<not> (int (fst r + n) \<le> position_to_offset tagged q \<and>
              position_to_offset tagged q \<le> int (snd r + n))" if "r \<in> set after" for r
      using ba(4) that o by (fastforce simp add: n_def)
    ultimately show "\<not> is_in_script_region tagged q" unfolding inq by blast
  }
next
  assume "str_find source ''<script'' = None \<or> str_find source ''</script>'' = None"
  then show f: "finditer 0 source = []"
    using no_opening_no_region no_closing_no_region by blast
  show "\<not> is_in_script_region source p" using f by (simp add: is_in_script_region_iff)
qed

theorem attributes_shift_regions_case_matters_witness:
  "is_in_script_region ''<script>a</script><script x>b</script>'' \<lparr>line = 0, character = 28\<rparr>
     = is_in_script_region ''<script>a</script><script>b</script>'' \<lparr>line = 0, character = 26\<rparr> \<and>
   is_in_script_region ''<script>a</script><script x>b</script>'' \<lparr>line = 0, character = 8\<rparr>
     = is_in_script_region ''<script>a</script><script>b</script>'' \<lparr>line = 0, character = 8\<rparr> \<and>
   \<not> is_in_script_region ''<script>a</script><script x>b</script>'' \<lparr>line = 0, character = 20\<rparr> \<and>
   finditer 0 ''<SCRIPT>x</SCRIPT>'' = []"
proof -
  let ?plain = "''<script>a</script><script>b</script>''"
  let ?tagged = "''<script>a</script><script x>b</script>''"
  have a: "list_all clean_pair [([], [], ''a'')] \<and> str_find [] ''<script'' = None \<and>
    CHR ''>'' \<notin> set '' x'' \<and> ''<script>a</script>'' = pairs_text [([], [], ''a'')] @ [] \<and>
    ?plain = ''<script>a</script>'' @ ''<script>'' @ ''b</script>'' \<and>
    ?tagged = ''<script>a</script>'' @ ''<script'' @ '' x'' @ ''>'' @ ''b</script>''"
    by (simp add: clean_pair_def starts_with_def)
  have b: "str_find ''<SCRIPT>x</SCRIPT>'' ''<script'' = None \<or>
           str_find ''<SCRIPT>x</SCRIPT>'' ''</script>'' = None"
    by (simp add: starts_with_def)
  have op: "position_to_offset ?plain \<lparr>line = 0, character = c\<rparr> = c" for c
    by (simp add: position_to_offset_def slice_to_def newline_def)
  have oq: "position_to_offset ?tagged \<lparr>line = 0, character = c\<rparr> = c" for c
    by (simp add: position_to_offset_def slice_to_def newline_def)
  note t = attributes_shift_regions_case_matters
    [where ps = "[([], [], ''a'')]" and gap = "[]" and attrs = "'' x''"
       and pre = "''<script>a</script>''" and rest = "''b</script>''"
       and plain = ?plain and tagged = ?tagged and source = "''<SCRIPT>x</SCRIPT>''"]
  have 1: "is_in_script_region ?tagged \<lparr>line = 0, character = 28\<rparr>
     = is_in_script_region ?plain \<lparr>line = 0, character = 26\<rparr>"
    by (rule mp [OF mp [OF t [where p = "\<lparr>line = 0, character = 26\<rparr>"
          and q = "\<lparr>line = 0, character = 28\<rparr>", THEN conjunct1] a,
          THEN conjunct2, THEN conjunct1]])
       (simp add: op oq)
  have 2: "is_in_script_region ?tagged \<lparr>line = 0, character = 8\<rparr>
     = is_in_script_region ?plain \<lparr>line = 0, character = 8\<rparr>"
    by (rule mp [OF mp [OF t [where p = "\<lparr>line = 0, character = 8\<rparr>"
          and q = "\<lparr>line = 0, character = 8\<rparr>", THEN conjunct1] a,
          THEN conjunct2, THEN conjunct2, THEN conjunct1]])
       (simp add: op oq)
  have 3: "\<not> is_in_script_region ?tagged \<lparr>line = 0, character = 20\<rparr>"
    by (rule mp [OF mp [OF t [where p = "\<lparr>line = 0, character = 0\<rparr>"
          and q = "\<lparr>line = 0, character = 20\<rparr>", THEN conjunct1] a,
          THEN conjunct2, THEN conjunct2, THEN conjunct2]])
       (simp add: oq)
  have 4: "finditer 0 ''<SCRIPT>x</SCRIPT>'' = []"
    using mp [OF t [THEN conjunct2] b, THEN conjunct1] .
  show ?thesis using 1 2 3 4 by (intro conjI)
qed

text \<open>
  C4 as stated fails for letter case: \<open><SCRIPT>x</SCRIPT>\<close> has no region and offset 8 is
  outside, while in \<open><script>x</script>\<close> offset 8 is inside.
\<close>

theorem uppercase_tag_not_recognised:
  "finditer 0 ''<SCRIPT>x</SCRIPT>'' = [] \<and>
   \<not> is_in_script_region ''<SCRIPT>x</SCRIPT>'' \<lparr>line = 0, character = 8\<rparr> \<and>
   finditer 0 ''<script>x</script>'' = [\<lparr>start0 = 0, end0 = 18, start1 = 8, end1 = 9\<rparr>] \<and>
   is_in_script_region ''<script>x</script>'' \<lparr>line = 0, character = 8\<rparr>"
  by (simp add: is_in_script_region_def finditer.simps match_here_def
      position_to_offset_def slice_to_def newline_def)

end
